theory Spec2Isabelle
  imports Complex_Main
begin

section \<open>Strings and the patterns of \<open>scripts/analyze_document.js\<close>\<close>

text \<open>
  The repository holds two revisions of the script. The first sections embed
  \<open>src/agent-document-reviewer/scripts/analyze_document.js\<close>: \<open>extractInternalLinks\<close>
  (lines 99-121), \<open>analyzeWithLinks\<close> (lines 126-274), \<open>analyzeDocument\<close> (lines 279-366)
  and \<open>evaluateMetrics\<close> (lines 371-471). The later revision, which is listed in
  \<open>src/agent-document-reviewer/SKILL.md\<close> (lines 305-1113), is embedded in the section on
  that revision, under names of its own.

  A JavaScript string is modelled as the list of its code units, for code units below 256.
  \<open>String.prototype.trim\<close> and the class \<open>\s\<close> remove the white space of that range:
  TAB, LF, VT, FF, CR, SPACE and NBSP. The dot of a pattern matches everything but the line
  terminators LF and CR.
\<close>

definition isWhitespace :: "char \<Rightarrow> bool" where
  "isWhitespace c \<longleftrightarrow>
     c = CHR 0x09 \<or> c = CHR 0x0A \<or> c = CHR 0x0B \<or> c = CHR 0x0C \<or> c = CHR 0x0D
     \<or> c = CHR 0x20 \<or> c = CHR 0xA0"

definition isLineTerminator :: "char \<Rightarrow> bool" where
  "isLineTerminator c \<longleftrightarrow> c = CHR 0x0A \<or> c = CHR 0x0D"

definition trim :: "string \<Rightarrow> string" where
  "trim s = rev (dropWhile isWhitespace (rev (dropWhile isWhitespace s)))"

definition startsWith :: "string \<Rightarrow> string \<Rightarrow> bool" where
  "startsWith s p \<longleftrightarrow> take (length p) s = p"

text \<open>\<open>content.split('\n')\<close>: the pieces between line feeds; never the empty list.\<close>

fun splitLines :: "string \<Rightarrow> string list" where
  "splitLines [] = [[]]"
| "splitLines (c # cs) =
     (if c = CHR 0x0A then [] # splitLines cs
      else (case splitLines cs of
              [] \<Rightarrow> [[c]]
            | l # ls \<Rightarrow> (c # l) # ls))"

text \<open>\<open>content.split(/\s+/)\<close>: the pieces between maximal runs of white space.\<close>

function splitWhitespace :: "string \<Rightarrow> string list" where
  "splitWhitespace [] = [[]]"
| "splitWhitespace (c # cs) =
     (if isWhitespace c then [] # splitWhitespace (dropWhile isWhitespace cs)
      else (case splitWhitespace cs of
              [] \<Rightarrow> [[c]]
            | w # ws \<Rightarrow> (c # w) # ws))"
  by pat_completeness auto
termination
  by (relation "measure length") (auto simp: le_imp_less_Suc length_dropWhile_le)

text \<open>
  The link pattern \<open>/\[([^\]]+)\]\(([^)]+)\)/g\<close>. At a given start the match is forced:
  an opening bracket, the maximal non-empty run of characters other than the closing bracket,
  the closing bracket, an opening parenthesis, the maximal non-empty run of characters other
  than the closing parenthesis, and the closing parenthesis. (A shorter run would be followed
  by a character of the run, never by the delimiter, so backtracking finds nothing else.)
  \<open>matchLinkAt\<close> returns the two groups and the text after the match.
\<close>

definition matchLinkAt :: "string \<Rightarrow> ((string \<times> string) \<times> string) option" where
  "matchLinkAt s =
     (case s of
        [] \<Rightarrow> None
      | c # s1 \<Rightarrow>
          if c \<noteq> CHR ''['' then None
          else
            let label = takeWhile (\<lambda>x. x \<noteq> CHR '']'') s1;
                r1 = dropWhile (\<lambda>x. x \<noteq> CHR '']'') s1
            in if label = [] then None
               else (case r1 of
                       b # p # s2 \<Rightarrow>
                         if b = CHR '']'' \<and> p = CHR ''('' then
                           let url = takeWhile (\<lambda>x. x \<noteq> CHR '')'') s2;
                               r2 = dropWhile (\<lambda>x. x \<noteq> CHR '')'') s2
                           in if url = [] then None
                              else (case r2 of
                                      [] \<Rightarrow> None
                                    | q # rest \<Rightarrow> Some ((label, url), rest))
                         else None
                     | _ \<Rightarrow> None))"

text \<open>
  All matches from left to right, as the loop over \<open>linkRegex.exec\<close> and \<open>matchAll\<close>
  produce them: after a match the search resumes behind it, otherwise one character later.
\<close>

function linkMatches :: "string \<Rightarrow> (string \<times> string) list" where
  "linkMatches [] = []"
| "linkMatches (c # cs) =
     (case matchLinkAt (c # cs) of
        Some (g, rest) \<Rightarrow> g # linkMatches rest
      | None \<Rightarrow> linkMatches cs)"
  by pat_completeness auto
termination
proof (relation "measure length")
  show "wf (measure length)" by simp
next
  fix c :: char and cs :: string and x2 :: "(string \<times> string) \<times> string"
    and g :: "string \<times> string" and rest :: string
  assume m: "matchLinkAt (c # cs) = Some x2" and x2: "(g, rest) = x2"
  let ?r1 = "dropWhile (\<lambda>x. x \<noteq> CHR '']'') cs"
  from m x2 obtain b p s2 where r1: "?r1 = b # p # s2"
    by (auto simp: matchLinkAt_def Let_def split: if_splits list.splits)
  let ?r2 = "dropWhile (\<lambda>x. x \<noteq> CHR '')'') s2"
  from m x2 r1 obtain q where r2: "?r2 = q # rest"
    by (auto simp: matchLinkAt_def Let_def split: if_splits list.splits)
  have "length rest < length ?r2" using r2 by simp
  also have "\<dots> \<le> length s2" by (rule length_dropWhile_le)
  also have "\<dots> < length ?r1" using r1 by simp
  also have "\<dots> \<le> length cs" by (rule length_dropWhile_le)
  finally show "(rest, c # cs) \<in> measure length" by simp
next
  fix c :: char and cs :: string
  show "(cs, c # cs) \<in> measure length" by simp
qed

text \<open>
  The heading pattern \<open>/^(#+)\s+(.+)$/\<close>: the maximal run of hashes, white space, and a
  non-empty rest without line terminators up to the end of the string. When nothing follows
  the white space, the greedy \<open>\s+\<close> gives back its last character to \<open>(.+)\<close>.
  The result is the length of the first group and the second group.
\<close>

definition headerMatch :: "string \<Rightarrow> (nat \<times> string) option" where
  "headerMatch t =
     (let hashes = takeWhile (\<lambda>c. c = CHR ''#'') t;
          r = dropWhile (\<lambda>c. c = CHR ''#'') t;
          ws = takeWhile isWhitespace r;
          rest = dropWhile isWhitespace r
      in if hashes = [] \<or> ws = [] then None
         else if rest \<noteq> [] then
           (if list_ex isLineTerminator rest then None else Some (length hashes, rest))
         else if 2 \<le> length ws \<and> \<not> isLineTerminator (last ws) then
           Some (length hashes, [last ws])
         else None)"


section \<open>Document metrics: \<open>analyzeDocument\<close>\<close>

record heading =
  h_depth :: nat
  title :: string
  lineNumber :: nat

text \<open>
  The metrics object. \<open>redundancyIndicators\<close> (the repeated three-word phrases) is left out:
  it is read only for a feedback message and for \<open>redundancyCount\<close>, never for a score.
\<close>

record metrics =
  totalLines :: nat
  nonEmptyLines :: nat
  wordCount :: nat
  sections :: "heading list"
  maxDepth :: nat
  sectionCount :: nat
  internalLinks :: nat
  externalLinks :: nat
  totalLinks :: nat
  frontLoadedContent :: nat
  avgSectionLength :: nat

definition isHttpUrl :: "string \<Rightarrow> bool" where
  "isHttpUrl url \<longleftrightarrow> startsWith url ''http://'' \<or> startsWith url ''https://''"

text \<open>The body of \<open>for (const match of linkMatches)\<close>, lines 329-338.\<close>

definition countLink :: "string \<times> string \<Rightarrow> metrics \<Rightarrow> metrics" where
  "countLink match m =
     (let m1 = m\<lparr>totalLinks := totalLinks m + 1\<rparr>;
          url = snd match
      in if isHttpUrl url then m1\<lparr>externalLinks := externalLinks m1 + 1\<rparr>
         else m1\<lparr>internalLinks := internalLinks m1 + 1\<rparr>)"

text \<open>The callback of \<open>lines.forEach((line, index) => ...)\<close>, lines 308-339.\<close>

definition analyzeLine :: "string \<times> nat \<Rightarrow> metrics \<Rightarrow> metrics" where
  "analyzeLine li m =
     (let trimmed = trim (fst li);
          index = snd li;
          m1 = (case headerMatch trimmed of
                  None \<Rightarrow> m
                | Some (depth, ttl) \<Rightarrow>
                    m\<lparr>sections := sections m @ [\<lparr>h_depth = depth, title = ttl, lineNumber = index + 1\<rparr>],
                      maxDepth := max (maxDepth m) depth,
                      sectionCount := sectionCount m + 1\<rparr>)
      in fold countLink (linkMatches trimmed) m1)"

definition nonEmpty :: "string \<Rightarrow> bool" where
  "nonEmpty line \<longleftrightarrow> 0 < length (trim line)"

text \<open>
  \<open>analyzeDocument\<close> on the content it has read. \<open>Math.floor(lines.length * 0.2)\<close> is
  \<open>lines.length div 5\<close>: the double \<open>0.2\<close> is \<open>(2^54 + 1) / (5 * 2^54)\<close>, so the product
  exceeds the fifth by less than half a unit in the last place. The quotient
  \<open>Math.floor(totalLines / sectionCount)\<close> is the integer quotient for counts below \<open>2^53\<close>.
\<close>

definition analyzeText :: "string \<Rightarrow> metrics" where
  "analyzeText content =
     (let lines = splitLines content;
          m0 = \<lparr>totalLines = length lines,
                nonEmptyLines = length (filter nonEmpty lines),
                wordCount = length (filter (\<lambda>w. 0 < length w) (splitWhitespace content)),
                sections = [], maxDepth = 0, sectionCount = 0,
                internalLinks = 0, externalLinks = 0, totalLinks = 0,
                frontLoadedContent = 0, avgSectionLength = 0\<rparr>;
          m1 = fold analyzeLine (zip lines [0..<length lines]) m0;
          frontSection = length lines div 5;
          m2 = m1\<lparr>frontLoadedContent := length (filter nonEmpty (take frontSection lines))\<rparr>
      in if 0 < sectionCount m2
         then m2\<lparr>avgSectionLength := totalLines m2 div sectionCount m2\<rparr>
         else m2)"

section \<open>Scores: \<open>evaluateMetrics\<close>\<close>

text \<open>
  The overall score is \<open>Math.round(lineCount * 0.4 + structure * 0.3 + progressiveDisclosure * 0.3)\<close>
  in IEEE double precision, and the rounding of the products matters: for the sub-scores
  2, 6 and 3 the sum is \<open>3.4999999999999996\<close> and the overall score 3, not 4.
  The doubles that occur are multiples of \<open>2^-54\<close>; a double is modelled by its numerator
  over \<open>2^54\<close>. \<open>toDouble\<close> rounds such a number to 53 significant bits, ties to even.
\<close>

fun bitLength :: "nat \<Rightarrow> nat" where
  "bitLength n = (if n = 0 then 0 else Suc (bitLength (n div 2)))"

declare bitLength.simps [simp del]

definition toDouble :: "nat \<Rightarrow> nat" where
  "toDouble v =
     (let b = bitLength v
      in if b \<le> 53 then v
         else
           let s = b - 53;
               q = v div 2 ^ s;
               r = v mod 2 ^ s;
               h = 2 ^ (s - 1)
           in (if r < h then q else if h < r then q + 1 else if even q then q else q + 1) * 2 ^ s)"

text \<open>The doubles nearest to 0.4 and 0.3, as numerators over \<open>2^54\<close>.\<close>

definition double_0_4 :: nat where
  "double_0_4 = 7205759403792794"

definition double_0_3 :: nat where
  "double_0_3 = 5404319552844595"

text \<open>\<open>Math.round\<close>: the nearest integer, a tie going up.\<close>

definition mathRound :: "nat \<Rightarrow> nat" where
  "mathRound v = (v + 2 ^ 53) div 2 ^ 54"

definition weightedSum :: "nat \<Rightarrow> nat \<Rightarrow> nat \<Rightarrow> nat" where
  "weightedSum lc st pd =
     toDouble (toDouble (toDouble (lc * double_0_4) + toDouble (st * double_0_3))
               + toDouble (pd * double_0_3))"

record scores =
  lineCount :: int
  structureScore :: int
  progressiveDisclosure :: int
  overall :: int

text \<open>Lines 381-394.\<close>

definition lineCountOf :: "metrics \<Rightarrow> int" where
  "lineCountOf m =
     (if totalLines m \<le> 200 then 10
      else if totalLines m \<le> 500 then 7
      else if totalLines m \<le> 800 then 4
      else 2)"

text \<open>
  Lines 396-419: the local \<open>structureScore\<close> starts at 10 and is lowered up to three
  times. (The field \<open>scores.structure\<close> is named \<open>structureScore\<close> below, since
  \<open>structure\<close> is reserved.)
\<close>

definition structureOf :: "metrics \<Rightarrow> int" where
  "structureOf m =
     (let s0 = (10::int);
          s1 = (if 4 < maxDepth m then s0 - 3 else s0);
          s2 = (if 30 < sectionCount m then s1 - 3
                else if 20 < sectionCount m then s1 - 1 else s1);
          s3 = (if 0 < avgSectionLength m \<and> avgSectionLength m < 15 then s2 - 2 else s2)
      in max 0 s3)"

text \<open>
  Lines 421-458. \<open>linkRatio >= 0.5\<close> compares a correctly rounded quotient with a double
  that is exact, so it holds exactly when the rational quotient is at least one half.
\<close>

definition linkRatio :: "metrics \<Rightarrow> rat" where
  "linkRatio m =
     (if 0 < totalLinks m then of_nat (internalLinks m) / of_nat (totalLinks m) else 0)"

definition progressiveDisclosureOf :: "metrics \<Rightarrow> int" where
  "progressiveDisclosureOf m =
     (if totalLines m \<le> 200 then 10
      else if totalLines m \<le> 500 then
        (if 3 \<le> internalLinks m \<and> 1 / 2 \<le> linkRatio m then 10
         else if 0 < internalLinks m then 7
         else 6)
      else
        (if 3 \<le> internalLinks m \<and> 1 / 2 \<le> linkRatio m then 10
         else if 0 < internalLinks m then 6
         else 3))"

text \<open>
  \<open>evaluateMetrics\<close> without the feedback strings, which no score depends on.
\<close>

definition evaluateMetrics :: "metrics \<Rightarrow> scores" where
  "evaluateMetrics m =
     (let lc = lineCountOf m;
          st = structureOf m;
          pd = progressiveDisclosureOf m
      in \<lparr>lineCount = lc, structureScore = st, progressiveDisclosure = pd,
          overall = int (mathRound (weightedSum (nat lc) (nat st) (nat pd)))\<rparr>)"


section \<open>The traversal: \<open>extractInternalLinks\<close> and \<open>analyzeWithLinks\<close>\<close>

text \<open>
  Node's \<open>path\<close> and \<open>fs\<close> modules are the environment of the script and are taken as
  parameters: \<open>resolve p\<close> is \<open>path.resolve(p)\<close>, \<open>resolveFrom dir t\<close> is
  \<open>path.resolve(dir, t)\<close>, and \<open>readFileSync p = None\<close> stands for a call that throws.
\<close>

record env =
  resolve :: "string \<Rightarrow> string"
  resolveFrom :: "string \<Rightarrow> string \<Rightarrow> string"
  dirname :: "string \<Rightarrow> string"
  basename :: "string \<Rightarrow> string"
  existsSync :: "string \<Rightarrow> bool"
  readFileSync :: "string \<Rightarrow> string option"

datatype error = ReadFailed string

text \<open>
  A JavaScript \<open>Set\<close> of strings is the list of its elements in insertion order, without
  repetition; its \<open>size\<close> is the length of the list.
\<close>

definition setHas :: "'a list \<Rightarrow> 'a \<Rightarrow> bool" where
  "setHas s x \<longleftrightarrow> x \<in> set s"

definition setAdd :: "'a \<Rightarrow> 'a list \<Rightarrow> 'a list" where
  "setAdd x s = (if x \<in> set s then s else s @ [x])"

definition setDelete :: "'a \<Rightarrow> 'a list \<Rightarrow> 'a list" where
  "setDelete x s = filter (\<lambda>y. y \<noteq> x) s"

text \<open>The body of the \<open>while\<close> loop of \<open>extractInternalLinks\<close>, lines 104-117.\<close>

definition pushInternalLink :: "env \<Rightarrow> string \<Rightarrow> string \<times> string \<Rightarrow> string list \<Rightarrow> string list" where
  "pushInternalLink E filePath match links =
     (let url = snd match
      in if \<not> startsWith url ''http://'' \<and> \<not> startsWith url ''https://'' then
           let cleanUrl = takeWhile (\<lambda>c. c \<noteq> CHR ''#'') url
           in if cleanUrl \<noteq> [] then links @ [resolveFrom E (dirname E filePath) cleanUrl]
              else links
         else links)"

definition extractInternalLinks :: "env \<Rightarrow> string \<Rightarrow> string \<Rightarrow> string list" where
  "extractInternalLinks E filePath content =
     (let links = fold (pushInternalLink E filePath) (linkMatches content) []
      in fold setAdd links [])"

text \<open>\<open>analyzeDocument(filePath)\<close> reads the file itself.\<close>

definition analyzeDocument :: "env \<Rightarrow> string \<Rightarrow> error + metrics" where
  "analyzeDocument E filePath =
     (case readFileSync E filePath of
        None \<Rightarrow> Inl (ReadFailed filePath)
      | Some content \<Rightarrow> Inr (analyzeText content))"

record options =
  optMaxDepth :: nat
  optMaxCount :: nat
  optFormat :: string

text \<open>
  The \<open>metrics\<close> field of a file result: for the format \<open>summary\<close> the ten numbers
  \<open>totalLines\<close>, \<open>nonEmptyLines\<close>, \<open>wordCount\<close>, \<open>sectionCount\<close>, \<open>maxDepth\<close>,
  \<open>internalLinks\<close>, \<open>externalLinks\<close>, \<open>totalLinks\<close>, \<open>frontLoadedContent\<close> and
  \<open>avgSectionLength\<close> (and \<open>redundancyCount\<close>, left out with \<open>redundancyIndicators\<close>),
  otherwise the metrics object.
\<close>

datatype reportedMetrics =
    SummaryMetrics nat nat nat nat nat nat nat nat nat nat
  | FullMetrics metrics

record fileResult =
  fileName :: string
  fullPath :: string
  depth :: nat
  reported :: reportedMetrics
  evaluation :: scores

record skipped =
  circular :: "string list"
  sk_maxDepth :: "string list"
  sk_maxCount :: "string list"

record summary =
  totalAnalyzed :: nat
  averageScore :: rat
  worstScore :: int
  worstFile :: "string option"

record result =
  analyzed :: "fileResult list"
  notFound :: "string list"
  skipped :: skipped
  summary :: summary

text \<open>Lines 136-150.\<close>

definition emptyResult :: result where
  "emptyResult =
     \<lparr>analyzed = [], notFound = [],
      skipped = \<lparr>circular = [], sk_maxDepth = [], sk_maxCount = []\<rparr>,
      summary = \<lparr>totalAnalyzed = 0, averageScore = 0, worstScore = 10, worstFile = None\<rparr>\<rparr>"

definition pushCircular :: "string \<Rightarrow> result \<Rightarrow> result" where
  "pushCircular p r = r\<lparr>skipped := (skipped r)\<lparr>circular := circular (skipped r) @ [p]\<rparr>\<rparr>"

definition pushMaxDepth :: "string \<Rightarrow> result \<Rightarrow> result" where
  "pushMaxDepth p r = r\<lparr>skipped := (skipped r)\<lparr>sk_maxDepth := sk_maxDepth (skipped r) @ [p]\<rparr>\<rparr>"

definition pushMaxCount :: "string \<Rightarrow> result \<Rightarrow> result" where
  "pushMaxCount p r = r\<lparr>skipped := (skipped r)\<lparr>sk_maxCount := sk_maxCount (skipped r) @ [p]\<rparr>\<rparr>"

definition pushNotFound :: "string \<Rightarrow> result \<Rightarrow> result" where
  "pushNotFound p r = r\<lparr>notFound := notFound r @ [p]\<rparr>"

text \<open>Lines 189-207.\<close>

definition fileResultOf :: "env \<Rightarrow> options \<Rightarrow> string \<Rightarrow> nat \<Rightarrow> metrics \<Rightarrow> scores \<Rightarrow> fileResult" where
  "fileResultOf E opts normalizedPath currentDepth m ev =
     \<lparr>fileName = basename E normalizedPath,
      fullPath = normalizedPath,
      depth = currentDepth,
      reported =
        (if optFormat opts = ''summary'' then
           SummaryMetrics (totalLines m) (nonEmptyLines m) (wordCount m) (sectionCount m)
             (maxDepth m) (internalLinks m) (externalLinks m) (totalLinks m)
             (frontLoadedContent m) (avgSectionLength m)
         else FullMetrics m),
      evaluation = ev\<rparr>"

text \<open>Lines 209-217: the file result is pushed and the worst score updated.\<close>

definition recordAnalyzed :: "fileResult \<Rightarrow> result \<Rightarrow> result" where
  "recordAnalyzed fr r =
     (let r1 = r\<lparr>analyzed := analyzed r @ [fr],
                summary := (summary r)\<lparr>totalAnalyzed := totalAnalyzed (summary r) + 1\<rparr>\<rparr>;
          score = overall (evaluation fr)
      in if score < worstScore (summary r1)
         then r1\<lparr>summary := (summary r1)\<lparr>worstScore := score, worstFile := Some (fullPath fr)\<rparr>\<rparr>
         else r1)"

text \<open>Lines 240-251: the result of a linked file is merged into the result.\<close>

definition mergeLinked :: "result \<Rightarrow> result \<Rightarrow> result" where
  "mergeLinked r linkedResult =
     (let r1 = r\<lparr>analyzed := analyzed r @ analyzed linkedResult,
                notFound := notFound r @ notFound linkedResult,
                skipped :=
                  \<lparr>circular = circular (skipped r) @ circular (skipped linkedResult),
                   sk_maxDepth = sk_maxDepth (skipped r) @ sk_maxDepth (skipped linkedResult),
                   sk_maxCount = sk_maxCount (skipped r) @ sk_maxCount (skipped linkedResult)\<rparr>\<rparr>;
          r2 = r1\<lparr>summary := (summary r1)\<lparr>totalAnalyzed := length (analyzed r1)\<rparr>\<rparr>
      in if worstScore (summary linkedResult) < worstScore (summary r2)
         then r2\<lparr>summary := (summary r2)\<lparr>worstScore := worstScore (summary linkedResult),
                                        worstFile := worstFile (summary linkedResult)\<rparr>\<rparr>
         else r2)"

text \<open>
  The body of \<open>for (const linkedPath of internalLinks)\<close>, lines 223-252, on the result and
  the two shared sets; \<open>recurse\<close> is the recursive call. An exception ends the loop.
\<close>

definition followLink ::
  "nat \<Rightarrow> (string \<Rightarrow> string list \<Rightarrow> string list \<Rightarrow> error + (result \<times> string list \<times> string list))
   \<Rightarrow> string \<Rightarrow> error + (result \<times> string list \<times> string list)
   \<Rightarrow> error + (result \<times> string list \<times> string list)" where
  "followLink maxCount recurse linkedPath acc =
     (case acc of
        Inl e \<Rightarrow> Inl e
      | Inr (r, visited, analyzing) \<Rightarrow>
          if maxCount \<le> length visited then Inr (pushMaxCount linkedPath r, visited, analyzing)
          else (case recurse linkedPath visited analyzing of
                  Inl e \<Rightarrow> Inl e
                | Inr (linkedResult, visited', analyzing') \<Rightarrow>
                    Inr (mergeLinked r linkedResult, visited', analyzing')))"

text \<open>Lines 253-261: at the maximal depth the links not yet visited are recorded.\<close>

definition recordMaxDepth :: "env \<Rightarrow> string list \<Rightarrow> string \<Rightarrow> result \<Rightarrow> result" where
  "recordMaxDepth E visited linkedPath r =
     (if \<not> setHas visited (resolve E linkedPath) then pushMaxDepth linkedPath r else r)"

text \<open>
  Lines 267-271. \<open>Math.round(totalScore / n * 10) / 10\<close> is computed here in exact
  arithmetic. For fewer than \<open>10^12\<close> analyzed files the doubles give the same number of
  tenths: the two roundings move the product by less than \<open>3 * 10^-14\<close>, a product that
  is not half-way between two integers lies at least \<open>1 / (2 * n)\<close> from the half, and the
  quotients whose product is half-way are the hundred values \<open>j / 20\<close> (\<open>j\<close> odd, below
  200), for each of which the double product is the half itself.
\<close>

definition averageOf :: "result \<Rightarrow> result" where
  "averageOf r =
     (if 0 < length (analyzed r) then
        let totalScore = sum_list (map (\<lambda>item. overall (evaluation item)) (analyzed r))
        in r\<lparr>summary := (summary r)\<lparr>averageScore :=
               of_int (round (of_int totalScore / of_nat (length (analyzed r)) * (10::rat))) / 10\<rparr>\<rparr>
      else r)"

text \<open>
  \<open>analyzeWithLinks\<close> at depth \<open>currentDepth\<close>, with the sets \<open>visited\<close> and \<open>analyzing\<close>
  it shares with its callers: it returns its result and the two sets as it leaves them, or
  the exception that a read has thrown.
\<close>

function analyzeWithLinks ::
  "env \<Rightarrow> options \<Rightarrow> string \<Rightarrow> nat \<Rightarrow> string list \<Rightarrow> string list
   \<Rightarrow> error + (result \<times> string list \<times> string list)" where
  "analyzeWithLinks E opts filePath currentDepth visited analyzing =
     (let normalizedPath = resolve E filePath
      in if setHas visited normalizedPath then
           Inr (pushCircular normalizedPath emptyResult, visited, analyzing)
         else if setHas analyzing normalizedPath then
           Inr (pushCircular normalizedPath emptyResult, visited, analyzing)
         else if optMaxCount opts \<le> length visited then
           Inr (pushMaxCount normalizedPath emptyResult, visited, analyzing)
         else if \<not> existsSync E normalizedPath then
           Inr (pushNotFound normalizedPath emptyResult, visited, analyzing)
         else
           let visited1 = setAdd normalizedPath visited;
               analyzing1 = setAdd normalizedPath analyzing
           in (case readFileSync E normalizedPath of
                 None \<Rightarrow> Inl (ReadFailed normalizedPath)
               | Some content \<Rightarrow>
                   (case analyzeDocument E normalizedPath of
                      Inl e \<Rightarrow> Inl e
                    | Inr m \<Rightarrow>
                        let r1 = recordAnalyzed
                                   (fileResultOf E opts normalizedPath currentDepth m (evaluateMetrics m))
                                   emptyResult
                        in (case (if currentDepth < optMaxDepth opts then
                                    fold (followLink (optMaxCount opts)
                                            (\<lambda>linkedPath vis an.
                                               analyzeWithLinks E opts linkedPath (currentDepth + 1) vis an))
                                      (extractInternalLinks E normalizedPath content)
                                      (Inr (r1, visited1, analyzing1))
                                  else if currentDepth = optMaxDepth opts then
                                    Inr (fold (recordMaxDepth E visited1)
                                           (extractInternalLinks E normalizedPath content) r1,
                                         visited1, analyzing1)
                                  else Inr (r1, visited1, analyzing1)) of
                              Inl e \<Rightarrow> Inl e
                            | Inr (r2, visited2, analyzing2) \<Rightarrow>
                                Inr (averageOf r2, visited2, setDelete normalizedPath analyzing2)))))"
  by pat_completeness auto
termination
  by (relation "measure (\<lambda>(E, opts, filePath, currentDepth, visited, analyzing).
                           optMaxDepth opts - currentDepth)") auto

declare analyzeWithLinks.simps [simp del]

text \<open>
  The call of \<open>main\<close>, lines 630-634: depth 0 and fresh sets.
\<close>

definition linkedAnalysis :: "env \<Rightarrow> options \<Rightarrow> string \<Rightarrow> error + result" where
  "linkedAnalysis E opts filePath =
     (case analyzeWithLinks E opts filePath 0 [] [] of
        Inl e \<Rightarrow> Inl e
      | Inr (r, visited, analyzing) \<Rightarrow> Inr r)"


section \<open>A concrete environment\<close>

text \<open>
  A POSIX file system that holds the regular files \<open>files\<close> (path and content). The path
  functions are Node's on normalized absolute paths and on link targets that are absolute
  or made of plain segments, which is all the examples below use.
\<close>

definition posixDirname :: "string \<Rightarrow> string" where
  "posixDirname p =
     (let d = rev (drop 1 (dropWhile (\<lambda>c. c \<noteq> CHR ''/'') (rev p)))
      in if d = [] then ''/'' else d)"

definition posixBasename :: "string \<Rightarrow> string" where
  "posixBasename p = rev (takeWhile (\<lambda>c. c \<noteq> CHR ''/'') (rev p))"

definition posixResolveFrom :: "string \<Rightarrow> string \<Rightarrow> string" where
  "posixResolveFrom dir t =
     (if startsWith t ''/'' then t
      else if dir = ''/'' then ''/'' @ t
      else dir @ ''/'' @ t)"

definition posixEnv :: "(string \<times> string) list \<Rightarrow> env" where
  "posixEnv files =
     \<lparr>resolve = (\<lambda>p. p),
      resolveFrom = posixResolveFrom,
      dirname = posixDirname,
      basename = posixBasename,
      existsSync = (\<lambda>p. p \<in> set (map fst files)),
      readFileSync = map_of files\<rparr>"


definition options :: "nat \<Rightarrow> nat \<Rightarrow> options" where
  "options d n = \<lparr>optMaxDepth = d, optMaxCount = n, optFormat = ''summary''\<rparr>"

text \<open>Two documents that link to each other.\<close>

definition cycleFiles :: "(string \<times> string) list" where
  "cycleFiles = [(''/r/a.md'', ''[b](b.md)''), (''/r/b.md'', ''[a](a.md)'')]"

text \<open>A document with two links, the first of which leads to the second as well.\<close>

definition diamondFiles :: "(string \<times> string) list" where
  "diamondFiles =
     [(''/r/a.md'', ''[b](b.md) [c](c.md)''), (''/r/b.md'', ''[c](c.md)''), (''/r/c.md'', ''x'')]"

text \<open>A short document without headings.\<close>

definition singleFiles :: "(string \<times> string) list" where
  "singleFiles = [(''/r/a.md'', ''A short note.'')]"

text \<open>Documents of 600 lines: 599 empty lines and a last line with six links.\<close>

definition blankLines :: "nat \<Rightarrow> string" where
  "blankLines n = replicate n (CHR 0x0A)"

definition fiveLocalLinks :: string where
  "fiveLocalLinks =
     blankLines 599 @ ''[a](a.md) [b](b.md) [c](c.md) [d](d.md) [e](e.md) [x](https://x.org)''"

definition oneLocalLink :: string where
  "oneLocalLink =
     blankLines 599 @ ''[a](a.md) [b](http://b.org) [c](http://c.org) [d](http://d.org) [e](http://e.org) [x](https://x.org)''"

section \<open>Notions of the statements\<close>

text \<open>The link matches of a line as \<open>analyzeDocument\<close> sees them, and those of a document.\<close>

definition lineTargets :: "string \<Rightarrow> (string \<times> string) list" where
  "lineTargets line = linkMatches (trim line)"

definition documentTargets :: "string \<Rightarrow> (string \<times> string) list" where
  "documentTargets content = concat (map lineTargets (splitLines content))"

text \<open>An anchor-only reference: its target begins with \<open>#\<close>.\<close>

definition isAnchorTarget :: "string \<Rightarrow> bool" where
  "isAnchorTarget url \<longleftrightarrow> startsWith url ''#''"

definition anchorCount :: "string \<Rightarrow> nat" where
  "anchorCount content = length (filter (\<lambda>g. isAnchorTarget (snd g)) (documentTargets content))"

text \<open>
  The tier score of the progressive-disclosure rule as the specification words it, for a
  number of lines, of local references and of all references: 10 up to 200 lines;
  10, 7 or 6 up to 500 lines; 10, 6 or 3 above.
\<close>

definition specTierScore :: "nat \<Rightarrow> nat \<Rightarrow> nat \<Rightarrow> int" where
  "specTierScore lines localRefs allRefs =
     (if lines \<le> 200 then 10
      else if lines \<le> 500 then
        (if 3 \<le> localRefs \<and> allRefs \<le> 2 * localRefs then 10
         else if 0 < localRefs then 7 else 6)
      else
        (if 3 \<le> localRefs \<and> allRefs \<le> 2 * localRefs then 10
         else if 0 < localRefs then 6 else 3))"

text \<open>
  An analyzed file \<open>e\<close> was reached from the analyzed file \<open>e'\<close>: a link of \<open>e'\<close>
  resolves to it, and it lies one level deeper.
\<close>

definition linkedFrom :: "env \<Rightarrow> fileResult \<Rightarrow> fileResult \<Rightarrow> bool" where
  "linkedFrom E e' e \<longleftrightarrow>
     (\<exists>content. readFileSync E (fullPath e') = Some content
        \<and> (\<exists>linkedPath \<in> set (extractInternalLinks E (fullPath e') content).
              fullPath e = resolve E linkedPath)
        \<and> depth e = depth e' + 1)"

text \<open>A document whose only reference is an anchor.\<close>

definition anchorDocument :: string where
  "anchorDocument = ''see [top](#top)''"

section \<open>The steps of \<open>analyzeWithLinks\<close>\<close>

text \<open>
  A candidate passes the four checks of lines 155-177: it is neither visited nor being
  analyzed, the count is not reached, and the path exists.
\<close>

definition admitted :: "env \<Rightarrow> options \<Rightarrow> string \<Rightarrow> string list \<Rightarrow> string list \<Rightarrow> bool" where
  "admitted E opts p visited analyzing \<longleftrightarrow>
     \<not> setHas visited p \<and> \<not> setHas analyzing p \<and> length visited < optMaxCount opts
     \<and> existsSync E p"

text \<open>The result after lines 185-217, when only the file itself has been recorded.\<close>

definition firstResult :: "env \<Rightarrow> options \<Rightarrow> string \<Rightarrow> nat \<Rightarrow> string \<Rightarrow> result" where
  "firstResult E opts p d content =
     recordAnalyzed
       (fileResultOf E opts p d (analyzeText content) (evaluateMetrics (analyzeText content)))
       emptyResult"

text \<open>Lines 262-273: the path leaves \<open>analyzing\<close> and the average is computed.\<close>

definition leave ::
  "string \<Rightarrow> error + (result \<times> string list \<times> string list)
   \<Rightarrow> error + (result \<times> string list \<times> string list)" where
  "leave p x =
     (case x of
        Inl e \<Rightarrow> Inl e
      | Inr (r2, visited2, analyzing2) \<Rightarrow> Inr (averageOf r2, visited2, setDelete p analyzing2))"

text \<open>
  An analyzed file below depth \<open>d\<close>: it lies deeper than \<open>d\<close> and not deeper than
  the maximal depth, it exists, and one of the files \<open>es\<close> links to it.
\<close>

definition reachedBelow :: "env \<Rightarrow> nat \<Rightarrow> nat \<Rightarrow> fileResult list \<Rightarrow> fileResult \<Rightarrow> bool" where
  "reachedBelow E d maxD es e \<longleftrightarrow>
     d < depth e \<and> depth e \<le> maxD \<and> existsSync E (fullPath e)
     \<and> (\<exists>e' \<in> set es. linkedFrom E e' e)"

text \<open>
  The shape of the list \<open>analyzed\<close> of a call for \<open>filePath\<close> at depth \<open>d\<close>: empty,
  or the file itself followed by files reached below it.
\<close>

definition shaped :: "env \<Rightarrow> options \<Rightarrow> string \<Rightarrow> nat \<Rightarrow> fileResult list \<Rightarrow> bool" where
  "shaped E opts filePath d es \<longleftrightarrow>
     es = [] \<or>
     (\<exists>e0 rest. es = e0 # rest \<and> fullPath e0 = resolve E filePath \<and> depth e0 = d
        \<and> existsSync E (fullPath e0)
        \<and> (\<forall>e \<in> set rest. reachedBelow E d (optMaxDepth opts) es e))"

text \<open>The scores of a short, flat document.\<close>

definition perfect :: scores where
  "perfect = \<lparr>lineCount = 10, structureScore = 10, progressiveDisclosure = 10, overall = 10\<rparr>"

text \<open>The overall score of an analyzed file.\<close>

definition scoreOf :: "fileResult \<Rightarrow> int" where
  "scoreOf e = overall (evaluation e)"

text \<open>
  The summary tracks the worst score: \<open>worstScore\<close> is the least of 10 and the overall
  scores, and \<open>worstFile\<close> is the first file with that score when it is below 10, and
  null otherwise.
\<close>

definition tracksWorst :: "result \<Rightarrow> bool" where
  "tracksWorst r \<longleftrightarrow>
     worstScore (summary r) = Min (insert 10 (set (map scoreOf (analyzed r))))
     \<and> worstFile (summary r)
         = (if worstScore (summary r) < 10
            then map_option fullPath (find (\<lambda>e. scoreOf e = worstScore (summary r)) (analyzed r))
            else None)"


section \<open>The revision of the script listed in \<open>SKILL.md\<close>\<close>

text \<open>
  \<open>src/agent-document-reviewer/SKILL.md\<close> carries, after its text, a later revision of
  \<open>analyze_document.js\<close> (lines 305-1113 of that file): the traversal takes a root
  directory, the skip categories are \<open>maxDepth\<close>, \<open>maxCount\<close>, \<open>outsideRoot\<close> and
  \<open>symlinks\<close>, link targets are normalized by \<open>normalizeMarkdownLinkTarget\<close>, and the
  metrics count anchor links. This section embeds that revision. Line numbers in this
  section are those of \<open>SKILL.md\<close>; a function or field whose name the embedding of
  \<open>scripts/analyze_document.js\<close> already uses carries the suffix \<open>2\<close>.
\<close>

text \<open>\<open>[...new Set(values)]\<close>, lines 329-331: the first occurrences, in order.\<close>

definition uniqStrings :: "string list \<Rightarrow> string list" where
  "uniqStrings values = fold setAdd values []"

text \<open>
  \<open>hasScheme\<close>, lines 333-335, tests \<open>/^[a-zA-Z][a-zA-Z0-9+.-]*:/\<close>: a letter, the maximal
  run of letters, digits, \<open>+\<close>, \<open>.\<close> and \<open>-\<close>, and a colon. (The colon is not in the class,
  so a shorter run is never followed by it.)
\<close>

definition isAsciiLetter :: "char \<Rightarrow> bool" where
  "isAsciiLetter c \<longleftrightarrow>
     (let k = (of_char c :: nat) in (65 \<le> k \<and> k \<le> 90) \<or> (97 \<le> k \<and> k \<le> 122))"

definition isSchemeChar :: "char \<Rightarrow> bool" where
  "isSchemeChar c \<longleftrightarrow>
     (let k = (of_char c :: nat)
      in (65 \<le> k \<and> k \<le> 90) \<or> (97 \<le> k \<and> k \<le> 122) \<or> (48 \<le> k \<and> k \<le> 57)
         \<or> c = CHR ''+'' \<or> c = CHR ''.'' \<or> c = CHR ''-'')"

definition hasScheme :: "string \<Rightarrow> bool" where
  "hasScheme url =
     (case url of
        [] \<Rightarrow> False
      | c # cs \<Rightarrow>
          isAsciiLetter c
          \<and> (case dropWhile isSchemeChar cs of
                [] \<Rightarrow> False
              | d # ds \<Rightarrow> d = CHR '':''))"

text \<open>
  \<open>.replace(/^<|>$/g, '')\<close>, line 338: a \<open><\<close> at the start is removed, and a \<open>>\<close> at the
  end of what remains.
\<close>

definition stripAngleBrackets :: "string \<Rightarrow> string" where
  "stripAngleBrackets s =
     (let s1 = (if startsWith s ''<'' then drop 1 s else s)
      in if s1 \<noteq> [] \<and> last s1 = CHR ''>'' then butlast s1 else s1)"

text \<open>
  \<open>normalizeMarkdownLinkTarget\<close>, lines 337-350; \<open>None\<close> is \<open>null\<close>. \<open>x.split('#')[0]\<close>
  is the part of \<open>x\<close> before its first \<open>#\<close>, and \<open>firstToken || null\<close> is \<open>null\<close> for
  the empty string.
\<close>

definition normalizeMarkdownLinkTarget :: "string \<Rightarrow> string option" where
  "normalizeMarkdownLinkTarget rawUrl =
     (let trimmed = stripAngleBrackets (trim rawUrl)
      in if startsWith trimmed ''#'' then None
         else if startsWith trimmed ''http://'' \<or> startsWith trimmed ''https://'' then None
         else if hasScheme trimmed then None
         else
           let withoutAnchor = takeWhile (\<lambda>c. c \<noteq> CHR ''#'') trimmed;
               withoutQuery = takeWhile (\<lambda>c. c \<noteq> CHR ''?'') withoutAnchor
           in (case splitWhitespace (trim withoutQuery) of
                 [] \<Rightarrow> None
               | firstToken # rest \<Rightarrow> if firstToken = [] then None else Some firstToken))"

text \<open>
  The environment of this revision: besides the functions of \<open>env\<close>, \<open>path.relative\<close>,
  \<open>path.isAbsolute\<close>, \<open>path.sep\<close>, \<open>fs.realpathSync\<close> (\<open>None\<close> when it throws) and
  \<open>fs.lstatSync(p).isSymbolicLink()\<close> (\<open>None\<close> when \<open>lstatSync\<close> throws).
\<close>

record env2 = env +
  relative :: "string \<Rightarrow> string \<Rightarrow> string"
  isAbsolute :: "string \<Rightarrow> bool"
  sep :: string
  realpathSync :: "string \<Rightarrow> string option"
  lstatSync :: "string \<Rightarrow> bool option"

datatype failure = ReadThrew string | RealpathThrew string | Exit string

text \<open>Lines 352-357.\<close>

definition isRealPathWithinRoot :: "env2 \<Rightarrow> string \<Rightarrow> string \<Rightarrow> bool" where
  "isRealPathWithinRoot E realPath rootRealPath =
     (let relativePath = relative E rootRealPath realPath
      in if relativePath = [] then True
         else if relativePath = ''..'' then False
         else \<not> startsWith relativePath (''..'' @ sep E) \<and> \<not> isAbsolute E relativePath)"

text \<open>Lines 359-361.\<close>

definition resolveRootRealPath :: "env2 \<Rightarrow> string \<Rightarrow> string option" where
  "resolveRootRealPath E rootDir = realpathSync E (resolve E rootDir)"

text \<open>
  A value that is \<open>null\<close> or a string is an option; as a condition it holds for a string
  that is not empty.
\<close>

definition isTruthy :: "string option \<Rightarrow> bool" where
  "isTruthy v = (case v of None \<Rightarrow> False | Some s \<Rightarrow> s \<noteq> [])"

record blockedLink =
  url :: string
  resolvedPath :: string

record linkResult =
  valid :: "string list"
  outsideRoot :: "blockedLink list"
  symlinks :: "blockedLink list"

text \<open>
  Lines 400-408: the fast path of \<open>extractInternalLinks\<close>, a comparison of paths as they
  are written.
\<close>

definition blockedByPath :: "env2 \<Rightarrow> string option \<Rightarrow> string \<Rightarrow> bool" where
  "blockedByPath E rootDir resolved =
     (case rootDir of
        None \<Rightarrow> False
      | Some rd \<Rightarrow>
          if rd = [] then False
          else
            let normalizedRoot = resolve E rd;
                relativePath = relative E normalizedRoot resolved
            in relativePath = ''..'' \<or> startsWith relativePath (''..'' @ sep E)
               \<or> isAbsolute E relativePath)"

text \<open>The body of the \<open>while\<close> loop of \<open>extractInternalLinks\<close>, lines 379-410.\<close>

definition pushLink2 ::
  "env2 \<Rightarrow> string \<Rightarrow> string option \<Rightarrow> bool \<Rightarrow> string \<times> string \<Rightarrow> linkResult \<Rightarrow> linkResult" where
  "pushLink2 E filePath rootDir noSymlinks match acc =
     (let rawUrl = snd match
      in case normalizeMarkdownLinkTarget rawUrl of
           None \<Rightarrow> acc
         | Some cleanUrl \<Rightarrow>
             let resolved = resolveFrom E (dirname E filePath) cleanUrl
             in if noSymlinks \<and> lstatSync E resolved = Some True then
                  acc\<lparr>symlinks := symlinks acc @ [\<lparr>url = cleanUrl, resolvedPath = resolved\<rparr>]\<rparr>
                else if blockedByPath E rootDir resolved then
                  acc\<lparr>outsideRoot := outsideRoot acc @ [\<lparr>url = cleanUrl, resolvedPath = resolved\<rparr>]\<rparr>
                else acc\<lparr>valid := valid acc @ [resolved]\<rparr>)"

text \<open>The loop over given matches, and the result of lines 414-418.\<close>

definition extractFromMatches ::
  "env2 \<Rightarrow> string \<Rightarrow> string option \<Rightarrow> bool \<Rightarrow> (string \<times> string) list \<Rightarrow> linkResult" where
  "extractFromMatches E filePath rootDir noSymlinks matches =
     (let acc = fold (pushLink2 E filePath rootDir noSymlinks) matches
                  \<lparr>valid = [], outsideRoot = [], symlinks = []\<rparr>
      in acc\<lparr>valid := uniqStrings (valid acc)\<rparr>)"

text \<open>\<open>extractInternalLinks\<close>, lines 371-419.\<close>

definition extractInternalLinks2 ::
  "env2 \<Rightarrow> string \<Rightarrow> string \<Rightarrow> string option \<Rightarrow> bool \<Rightarrow> linkResult" where
  "extractInternalLinks2 E filePath content rootDir noSymlinks =
     extractFromMatches E filePath rootDir noSymlinks (linkMatches content)"

text \<open>
  The metrics object of lines 612-635: that of \<open>scripts/analyze_document.js\<close> and the
  count \<open>anchorLinks\<close>; \<open>redundancyIndicators\<close> is left out here as well.
\<close>

record metrics2 = metrics +
  anchorLinks :: nat

text \<open>The body of \<open>for (const match of linkMatches)\<close>, lines 659-672.\<close>

definition countLink2 :: "string \<times> string \<Rightarrow> metrics2 \<Rightarrow> metrics2" where
  "countLink2 match m =
     (let m1 = m\<lparr>totalLinks := totalLinks m + 1\<rparr>;
          target = snd match
      in if startsWith target ''#'' then m1\<lparr>anchorLinks := anchorLinks m1 + 1\<rparr>
         else (case normalizeMarkdownLinkTarget target of
                 Some normalizedTarget \<Rightarrow> m1\<lparr>internalLinks := internalLinks m1 + 1\<rparr>
               | None \<Rightarrow> m1\<lparr>externalLinks := externalLinks m1 + 1\<rparr>))"

text \<open>The callback of \<open>lines.forEach((line, index) => ...)\<close>, lines 638-673.\<close>

definition analyzeLine2 :: "string \<times> nat \<Rightarrow> metrics2 \<Rightarrow> metrics2" where
  "analyzeLine2 li m =
     (let trimmed = trim (fst li);
          index = snd li;
          m1 = (case headerMatch trimmed of
                  None \<Rightarrow> m
                | Some (level, ttl) \<Rightarrow>
                    m\<lparr>sections := sections m @ [\<lparr>h_depth = level, title = ttl, lineNumber = index + 1\<rparr>],
                      maxDepth := max (maxDepth m) level,
                      sectionCount := sectionCount m + 1\<rparr>)
      in fold countLink2 (linkMatches trimmed) m1)"

text \<open>\<open>analyzeDocument\<close>, lines 608-700, on the content it has read.\<close>

definition analyzeText2 :: "string \<Rightarrow> metrics2" where
  "analyzeText2 content =
     (let lines = splitLines content;
          m0 = \<lparr>totalLines = length lines,
                nonEmptyLines = length (filter nonEmpty lines),
                wordCount = length (filter (\<lambda>w. 0 < length w) (splitWhitespace content)),
                sections = [], maxDepth = 0, sectionCount = 0,
                internalLinks = 0, externalLinks = 0, totalLinks = 0,
                frontLoadedContent = 0, avgSectionLength = 0, anchorLinks = 0\<rparr>;
          m1 = fold analyzeLine2 (zip lines [0..<length lines]) m0;
          frontSection = length lines div 5;
          m2 = m1\<lparr>frontLoadedContent := length (filter nonEmpty (take frontSection lines))\<rparr>
      in if 0 < sectionCount m2
         then m2\<lparr>avgSectionLength := totalLines m2 div sectionCount m2\<rparr>
         else m2)"

definition analyzeDocument2 :: "env2 \<Rightarrow> string \<Rightarrow> failure + metrics2" where
  "analyzeDocument2 E filePath =
     (case readFileSync E filePath of
        None \<Rightarrow> Inl (ReadThrew filePath)
      | Some content \<Rightarrow> Inr (analyzeText2 content))"

text \<open>\<open>evaluateMetrics\<close>, lines 705-811. Lines 715-728.\<close>

definition lineCountOf2 :: "metrics2 \<Rightarrow> int" where
  "lineCountOf2 m =
     (if totalLines m \<le> 200 then 10
      else if totalLines m \<le> 500 then 7
      else if totalLines m \<le> 800 then 4
      else 2)"

text \<open>Lines 730-753.\<close>

definition structureOf2 :: "metrics2 \<Rightarrow> int" where
  "structureOf2 m =
     (let s0 = (10::int);
          s1 = (if 4 < maxDepth m then s0 - 3 else s0);
          s2 = (if 30 < sectionCount m then s1 - 3
                else if 20 < sectionCount m then s1 - 1 else s1);
          s3 = (if 0 < avgSectionLength m \<and> avgSectionLength m < 15 then s2 - 2 else s2)
      in max 0 s3)"

text \<open>Lines 755-792: the score of the tier, before the anchor links are looked at.\<close>

definition linkRatio2 :: "metrics2 \<Rightarrow> rat" where
  "linkRatio2 m =
     (if 0 < totalLinks m then of_nat (internalLinks m) / of_nat (totalLinks m) else 0)"

definition tierScore :: "metrics2 \<Rightarrow> int" where
  "tierScore m =
     (if totalLines m \<le> 200 then 10
      else if totalLines m \<le> 500 then
        (if 3 \<le> internalLinks m \<and> 1 / 2 \<le> linkRatio2 m then 10
         else if 0 < internalLinks m then 7
         else 6)
      else
        (if 3 \<le> internalLinks m \<and> 1 / 2 \<le> linkRatio2 m then 10
         else if 0 < internalLinks m then 6
         else 3))"

text \<open>Lines 794-798: the anchor links penalty.\<close>

definition progressiveDisclosureOf2 :: "metrics2 \<Rightarrow> int" where
  "progressiveDisclosureOf2 m =
     (let pd = tierScore m
      in if 0 < anchorLinks m then max 0 (pd - 2) else pd)"

definition evaluateMetrics2 :: "metrics2 \<Rightarrow> scores" where
  "evaluateMetrics2 m =
     (let lc = lineCountOf2 m;
          st = structureOf2 m;
          pd = progressiveDisclosureOf2 m
      in \<lparr>lineCount = lc, structureScore = st, progressiveDisclosure = pd,
          overall = int (mathRound (weightedSum (nat lc) (nat st) (nat pd)))\<rparr>)"

text \<open>
  The options of \<open>analyzeWithLinks\<close>, lines 425-434: those of the other revision,
  \<open>rootDir\<close>, \<open>rootRealPath\<close> and \<open>noSymlinks\<close>.
\<close>

record options2 = options +
  optRootDir :: "string option"
  optRootRealPath :: "string option"
  optNoSymlinks :: bool

text \<open>
  The \<open>metrics\<close> field of a file result, lines 502-515: for the format \<open>summary\<close> the
  eleven numbers \<open>totalLines\<close>, \<open>nonEmptyLines\<close>, \<open>wordCount\<close>, \<open>sectionCount\<close>,
  \<open>maxDepth\<close>, \<open>internalLinks\<close>, \<open>externalLinks\<close>, \<open>anchorLinks\<close>, \<open>totalLinks\<close>,
  \<open>frontLoadedContent\<close> and \<open>avgSectionLength\<close> (and \<open>redundancyCount\<close>, left out
  with \<open>redundancyIndicators\<close>), otherwise the metrics object.
\<close>

datatype reportedMetrics2 =
    SummaryMetrics2 nat nat nat nat nat nat nat nat nat nat nat
  | FullMetrics2 metrics2

record fileResult2 =
  fileName2 :: string
  fullPath2 :: string
  depth2 :: nat
  reported2 :: reportedMetrics2
  evaluation2 :: scores

record skipped2 =
  sk_maxDepth2 :: "string list"
  sk_maxCount2 :: "string list"
  sk_outsideRoot :: "blockedLink list"
  sk_symlinks :: "blockedLink list"

record result2 =
  analyzed2 :: "fileResult2 list"
  notFound2 :: "string list"
  skipped2 :: skipped2
  summary2 :: summary

text \<open>Lines 436-451.\<close>

definition emptyResult2 :: result2 where
  "emptyResult2 =
     \<lparr>analyzed2 = [], notFound2 = [],
      skipped2 = \<lparr>sk_maxDepth2 = [], sk_maxCount2 = [], sk_outsideRoot = [], sk_symlinks = []\<rparr>,
      summary2 = \<lparr>totalAnalyzed = 0, averageScore = 0, worstScore = 10, worstFile = None\<rparr>\<rparr>"

definition pushMaxDepth2 :: "string \<Rightarrow> result2 \<Rightarrow> result2" where
  "pushMaxDepth2 p r = r\<lparr>skipped2 := (skipped2 r)\<lparr>sk_maxDepth2 := sk_maxDepth2 (skipped2 r) @ [p]\<rparr>\<rparr>"

definition pushMaxCount2 :: "string \<Rightarrow> result2 \<Rightarrow> result2" where
  "pushMaxCount2 p r = r\<lparr>skipped2 := (skipped2 r)\<lparr>sk_maxCount2 := sk_maxCount2 (skipped2 r) @ [p]\<rparr>\<rparr>"

definition pushNotFound2 :: "string \<Rightarrow> result2 \<Rightarrow> result2" where
  "pushNotFound2 p r = r\<lparr>notFound2 := notFound2 r @ [p]\<rparr>"

definition pushOutsideRoot :: "blockedLink list \<Rightarrow> result2 \<Rightarrow> result2" where
  "pushOutsideRoot bs r =
     r\<lparr>skipped2 := (skipped2 r)\<lparr>sk_outsideRoot := sk_outsideRoot (skipped2 r) @ bs\<rparr>\<rparr>"

definition pushSymlinks :: "blockedLink list \<Rightarrow> result2 \<Rightarrow> result2" where
  "pushSymlinks bs r =
     r\<lparr>skipped2 := (skipped2 r)\<lparr>sk_symlinks := sk_symlinks (skipped2 r) @ bs\<rparr>\<rparr>"

text \<open>Line 475: \<open>rootRealPath || resolveRootRealPath(rootDir)\<close>; \<open>None\<close> when it throws.\<close>

definition effectiveRootRealPath :: "env2 \<Rightarrow> options2 \<Rightarrow> string \<Rightarrow> string option" where
  "effectiveRootRealPath E opts rootDir =
     (if isTruthy (optRootRealPath opts) then optRootRealPath opts
      else resolveRootRealPath E rootDir)"

text \<open>
  The security sandbox, lines 473-488: an exception, the result that the function returns
  for a blocked file, or \<open>None\<close> when the file passes.
\<close>

definition sandboxCheck ::
  "env2 \<Rightarrow> options2 \<Rightarrow> string \<Rightarrow> string \<Rightarrow> failure + result2 option" where
  "sandboxCheck E opts filePath normalizedPath =
     (case optRootDir opts of
        None \<Rightarrow> Inr None
      | Some rootDir \<Rightarrow>
          if rootDir = [] then Inr None
          else
            (case effectiveRootRealPath E opts rootDir of
               None \<Rightarrow> Inl (RealpathThrew (resolve E rootDir))
             | Some rootReal \<Rightarrow>
                 (case realpathSync E normalizedPath of
                    None \<Rightarrow> Inl (RealpathThrew normalizedPath)
                  | Some fileRealPath \<Rightarrow>
                      if \<not> isRealPathWithinRoot E fileRealPath rootReal then
                        Inr (Some (pushOutsideRoot
                                     [\<lparr>url = filePath, resolvedPath = normalizedPath\<rparr>] emptyResult2))
                      else if optNoSymlinks opts \<and> resolve E fileRealPath \<noteq> normalizedPath then
                        Inr (Some (pushSymlinks
                                     [\<lparr>url = filePath, resolvedPath = normalizedPath\<rparr>] emptyResult2))
                      else Inr None)))"

text \<open>Lines 498-517.\<close>

definition fileResultOf2 ::
  "env2 \<Rightarrow> options2 \<Rightarrow> string \<Rightarrow> nat \<Rightarrow> metrics2 \<Rightarrow> scores \<Rightarrow> fileResult2" where
  "fileResultOf2 E opts normalizedPath currentDepth m ev =
     \<lparr>fileName2 = basename E normalizedPath,
      fullPath2 = normalizedPath,
      depth2 = currentDepth,
      reported2 =
        (if optFormat opts = ''summary'' then
           SummaryMetrics2 (totalLines m) (nonEmptyLines m) (wordCount m) (sectionCount m)
             (maxDepth m) (internalLinks m) (externalLinks m) (anchorLinks m) (totalLinks m)
             (frontLoadedContent m) (avgSectionLength m)
         else FullMetrics2 m),
      evaluation2 = ev\<rparr>"

text \<open>Lines 519-527: the file result is pushed and the worst score updated.\<close>

definition recordAnalyzed2 :: "fileResult2 \<Rightarrow> result2 \<Rightarrow> result2" where
  "recordAnalyzed2 fr r =
     (let r1 = r\<lparr>analyzed2 := analyzed2 r @ [fr],
                summary2 := (summary2 r)\<lparr>totalAnalyzed := totalAnalyzed (summary2 r) + 1\<rparr>\<rparr>;
          score = overall (evaluation2 fr)
      in if score < worstScore (summary2 r1)
         then r1\<lparr>summary2 := (summary2 r1)\<lparr>worstScore := score, worstFile := Some (fullPath2 fr)\<rparr>\<rparr>
         else r1)"

text \<open>Lines 534-536 and 574-575: the blocked links of the document are recorded.\<close>

definition pushBlocked :: "linkResult \<Rightarrow> result2 \<Rightarrow> result2" where
  "pushBlocked links r = pushSymlinks (symlinks links) (pushOutsideRoot (outsideRoot links) r)"

text \<open>Lines 557-569: the result of a linked file is merged into the result.\<close>

definition mergeLinked2 :: "result2 \<Rightarrow> result2 \<Rightarrow> result2" where
  "mergeLinked2 r linkedResult =
     (let r1 = r\<lparr>analyzed2 := analyzed2 r @ analyzed2 linkedResult,
                notFound2 := notFound2 r @ notFound2 linkedResult,
                skipped2 :=
                  \<lparr>sk_maxDepth2 = sk_maxDepth2 (skipped2 r) @ sk_maxDepth2 (skipped2 linkedResult),
                   sk_maxCount2 = sk_maxCount2 (skipped2 r) @ sk_maxCount2 (skipped2 linkedResult),
                   sk_outsideRoot = sk_outsideRoot (skipped2 r) @ sk_outsideRoot (skipped2 linkedResult),
                   sk_symlinks = sk_symlinks (skipped2 r) @ sk_symlinks (skipped2 linkedResult)\<rparr>\<rparr>;
          r2 = r1\<lparr>summary2 := (summary2 r1)\<lparr>totalAnalyzed := length (analyzed2 r1)\<rparr>\<rparr>
      in if worstScore (summary2 linkedResult) < worstScore (summary2 r2)
         then r2\<lparr>summary2 := (summary2 r2)\<lparr>worstScore := worstScore (summary2 linkedResult),
                                          worstFile := worstFile (summary2 linkedResult)\<rparr>\<rparr>
         else r2)"

text \<open>
  The body of \<open>for (const linkedPath of internalLinks)\<close>, lines 538-570, on the result and
  the shared set \<open>visited\<close>; \<open>recurse\<close> is the recursive call. An exception ends the loop.
\<close>

definition followLink2 ::
  "nat \<Rightarrow> (string \<Rightarrow> string list \<Rightarrow> failure + (result2 \<times> string list))
   \<Rightarrow> string \<Rightarrow> failure + (result2 \<times> string list) \<Rightarrow> failure + (result2 \<times> string list)" where
  "followLink2 maxCount recurse linkedPath acc =
     (case acc of
        Inl e \<Rightarrow> Inl e
      | Inr (r, visited) \<Rightarrow>
          if maxCount \<le> length visited then Inr (pushMaxCount2 linkedPath r, visited)
          else (case recurse linkedPath visited of
                  Inl e \<Rightarrow> Inl e
                | Inr (linkedResult, visited') \<Rightarrow> Inr (mergeLinked2 r linkedResult, visited')))"

text \<open>Lines 577-581: at the maximal depth the valid links not yet visited are recorded.\<close>

definition recordMaxDepth2 :: "env2 \<Rightarrow> string list \<Rightarrow> string \<Rightarrow> result2 \<Rightarrow> result2" where
  "recordMaxDepth2 E visited linkedPath r =
     (if \<not> setHas visited (resolve E linkedPath) then pushMaxDepth2 linkedPath r else r)"

text \<open>Lines 584-588, in exact arithmetic as for the other revision.\<close>

definition averageOf2 :: "result2 \<Rightarrow> result2" where
  "averageOf2 r =
     (if 0 < length (analyzed2 r) then
        let totalScore = sum_list (map (\<lambda>item. overall (evaluation2 item)) (analyzed2 r))
        in r\<lparr>summary2 := (summary2 r)\<lparr>averageScore :=
               of_int (round (of_int totalScore / of_nat (length (analyzed2 r)) * (10::rat))) / 10\<rparr>\<rparr>
      else r)"

text \<open>
  Lines 593-599: the paths that were analyzed are removed from \<open>skipped.maxDepth\<close> and
  \<open>skipped.maxCount\<close>.
\<close>

definition dedupeSkipped :: "env2 \<Rightarrow> result2 \<Rightarrow> result2" where
  "dedupeSkipped E r =
     (let analyzedPaths = uniqStrings (map fullPath2 (analyzed2 r))
      in r\<lparr>skipped2 := (skipped2 r)
             \<lparr>sk_maxDepth2 := filter (\<lambda>p. \<not> setHas analyzedPaths (resolve E p))
                                (sk_maxDepth2 (skipped2 r)),
              sk_maxCount2 := filter (\<lambda>p. \<not> setHas analyzedPaths (resolve E p))
                                (sk_maxCount2 (skipped2 r))\<rparr>\<rparr>)"

text \<open>
  \<open>analyzeWithLinks\<close>, lines 424-603, at depth \<open>currentDepth\<close> with the set \<open>visited\<close>
  it shares with its callers: it returns its result and the set as it leaves it, or the
  exception that \<open>realpathSync\<close> or \<open>readFileSync\<close> has thrown.
\<close>

function analyzeWithLinks2 ::
  "env2 \<Rightarrow> options2 \<Rightarrow> string \<Rightarrow> nat \<Rightarrow> string list \<Rightarrow> failure + (result2 \<times> string list)" where
  "analyzeWithLinks2 E opts filePath currentDepth visited =
     (let normalizedPath = resolve E filePath
      in if setHas visited normalizedPath then Inr (emptyResult2, visited)
         else if optMaxCount opts \<le> length visited then
           Inr (pushMaxCount2 normalizedPath emptyResult2, visited)
         else if \<not> existsSync E normalizedPath then
           Inr (pushNotFound2 normalizedPath emptyResult2, visited)
         else
           (case sandboxCheck E opts filePath normalizedPath of
              Inl e \<Rightarrow> Inl e
            | Inr (Some blocked) \<Rightarrow> Inr (blocked, visited)
            | Inr None \<Rightarrow>
                let visited1 = setAdd normalizedPath visited
                in (case readFileSync E normalizedPath of
                      None \<Rightarrow> Inl (ReadThrew normalizedPath)
                    | Some content \<Rightarrow>
                        (case analyzeDocument2 E normalizedPath of
                           Inl e \<Rightarrow> Inl e
                         | Inr m \<Rightarrow>
                             let r1 = recordAnalyzed2
                                        (fileResultOf2 E opts normalizedPath currentDepth m
                                           (evaluateMetrics2 m))
                                        emptyResult2;
                                 linkResult = extractInternalLinks2 E normalizedPath content
                                                (optRootDir opts) (optNoSymlinks opts)
                             in (case (if currentDepth < optMaxDepth opts then
                                         fold (followLink2 (optMaxCount opts)
                                                 (\<lambda>linkedPath vis.
                                                    analyzeWithLinks2 E opts linkedPath
                                                      (currentDepth + 1) vis))
                                           (valid linkResult)
                                           (Inr (pushBlocked linkResult r1, visited1))
                                       else if currentDepth = optMaxDepth opts then
                                         Inr (fold (recordMaxDepth2 E visited1) (valid linkResult)
                                                (pushBlocked linkResult r1),
                                              visited1)
                                       else Inr (r1, visited1)) of
                                   Inl e \<Rightarrow> Inl e
                                 | Inr (r2, visited2) \<Rightarrow>
                                     Inr (if currentDepth = 0 then dedupeSkipped E (averageOf2 r2)
                                          else averageOf2 r2,
                                          visited2))))))"
  by pat_completeness auto
termination
  by (relation "measure (\<lambda>(E, opts, filePath, currentDepth, visited).
                           optMaxDepth opts - currentDepth)") auto

declare analyzeWithLinks2.simps [simp del]

text \<open>
  The link analysis of \<open>main\<close>, lines 913-997, for the root directory \<open>rootDir\<close> and the
  entry points \<open>filePaths\<close>; \<open>main\<close> runs it when a root directory is given
  (\<open>includeLinks\<close>, line 911). Lines 917-930: an entry point outside the root, or a
  symbolic link when \<open>noSymlinks\<close> is set, ends the process.
\<close>

definition checkEntry :: "env2 \<Rightarrow> string \<Rightarrow> bool \<Rightarrow> string \<Rightarrow> failure option" where
  "checkEntry E rootRealPath noSymlinks filePath =
     (let normalizedPath = resolve E filePath
      in case realpathSync E normalizedPath of
           None \<Rightarrow> Some (RealpathThrew normalizedPath)
         | Some realPath \<Rightarrow>
             if \<not> isRealPathWithinRoot E realPath rootRealPath then Some (Exit normalizedPath)
             else if noSymlinks \<and> resolve E realPath \<noteq> normalizedPath then Some (Exit filePath)
             else None)"

text \<open>Lines 969-981: the result of an entry point is merged into \<open>allResults\<close>.\<close>

definition mergeEntry :: "result2 \<Rightarrow> result2 \<Rightarrow> result2" where
  "mergeEntry allResults entryResult =
     (let r1 = allResults
                 \<lparr>analyzed2 := analyzed2 allResults @ analyzed2 entryResult,
                  notFound2 := notFound2 allResults @ notFound2 entryResult,
                  skipped2 :=
                    \<lparr>sk_maxDepth2 = sk_maxDepth2 (skipped2 allResults)
                                      @ sk_maxDepth2 (skipped2 entryResult),
                     sk_maxCount2 = sk_maxCount2 (skipped2 allResults)
                                      @ sk_maxCount2 (skipped2 entryResult),
                     sk_outsideRoot = sk_outsideRoot (skipped2 allResults)
                                        @ sk_outsideRoot (skipped2 entryResult),
                     sk_symlinks = sk_symlinks (skipped2 allResults)
                                     @ sk_symlinks (skipped2 entryResult)\<rparr>\<rparr>
      in if worstScore (summary2 entryResult) < worstScore (summary2 r1)
         then r1\<lparr>summary2 := (summary2 r1)\<lparr>worstScore := worstScore (summary2 entryResult),
                                          worstFile := worstFile (summary2 entryResult)\<rparr>\<rparr>
         else r1)"

text \<open>The body of \<open>for (const filePath of filePaths)\<close>, lines 957-982.\<close>

definition analyzeEntry ::
  "env2 \<Rightarrow> options2 \<Rightarrow> string \<Rightarrow> failure + (result2 \<times> string list)
   \<Rightarrow> failure + (result2 \<times> string list)" where
  "analyzeEntry E opts filePath acc =
     (case acc of
        Inl e \<Rightarrow> Inl e
      | Inr (allResults, sharedVisited) \<Rightarrow>
          (case analyzeWithLinks2 E opts filePath 0 sharedVisited of
             Inl e \<Rightarrow> Inl e
           | Inr (entryResult, sharedVisited') \<Rightarrow>
               Inr (mergeEntry allResults entryResult, sharedVisited')))"

text \<open>
  Lines 984-997: the aggregate summary and the deduplication across the entry points.
\<close>

definition crossEntryDedupe :: "env2 \<Rightarrow> result2 \<Rightarrow> result2" where
  "crossEntryDedupe E allResults =
     (let r1 = allResults\<lparr>summary2 := (summary2 allResults)
                            \<lparr>totalAnalyzed := length (analyzed2 allResults)\<rparr>\<rparr>;
          r2 = averageOf2 r1;
          analyzedPaths = uniqStrings (map fullPath2 (analyzed2 r2))
      in r2\<lparr>notFound2 := uniqStrings (notFound2 r2),
            skipped2 := (skipped2 r2)
              \<lparr>sk_maxDepth2 := filter (\<lambda>p. \<not> setHas analyzedPaths (resolve E p))
                                 (uniqStrings (sk_maxDepth2 (skipped2 r2))),
               sk_maxCount2 := filter (\<lambda>p. \<not> setHas analyzedPaths (resolve E p))
                                 (uniqStrings (sk_maxCount2 (skipped2 r2)))\<rparr>\<rparr>)"

text \<open>The options that \<open>main\<close> passes to \<open>analyzeWithLinks\<close>, lines 958-967.\<close>

definition mainOptions :: "options \<Rightarrow> string \<Rightarrow> string \<Rightarrow> bool \<Rightarrow> options2" where
  "mainOptions limits rootDir rootRealPath noSymlinks =
     \<lparr>optMaxDepth = optMaxDepth limits, optMaxCount = optMaxCount limits,
      optFormat = optFormat limits, optRootDir = Some rootDir,
      optRootRealPath = Some rootRealPath, optNoSymlinks = noSymlinks\<rparr>"

definition mainLinkedAnalysis ::
  "env2 \<Rightarrow> options \<Rightarrow> string \<Rightarrow> bool \<Rightarrow> string list \<Rightarrow> failure + result2" where
  "mainLinkedAnalysis E limits rootDir noSymlinks filePaths =
     (case resolveRootRealPath E rootDir of
        None \<Rightarrow> Inl (RealpathThrew (resolve E rootDir))
      | Some rootRealPath \<Rightarrow>
          (case List.find (\<lambda>filePath. checkEntry E rootRealPath noSymlinks filePath \<noteq> None)
                  filePaths of
             Some filePath \<Rightarrow>
               (case checkEntry E rootRealPath noSymlinks filePath of
                  Some e \<Rightarrow> Inl e
                | None \<Rightarrow> Inl (Exit filePath))
           | None \<Rightarrow>
               (case fold (analyzeEntry E (mainOptions limits rootDir rootRealPath noSymlinks))
                       filePaths (Inr (emptyResult2, [])) of
                  Inl e \<Rightarrow> Inl e
                | Inr (allResults, sharedVisited) \<Rightarrow> Inr (crossEntryDedupe E allResults))))"

section \<open>A concrete environment with a root directory\<close>

text \<open>
  The POSIX path functions on absolute paths: a path is cut into its segments,
  \<open>path.resolve\<close> removes the segments \<open>.\<close> and, with the segment before, \<open>..\<close>, and
  \<open>path.relative\<close> climbs from the first path to the last common directory and descends
  to the second.
\<close>

fun splitOn :: "char \<Rightarrow> string \<Rightarrow> string list" where
  "splitOn d [] = [[]]"
| "splitOn d (c # cs) =
     (if c = d then [] # splitOn d cs
      else (case splitOn d cs of
              [] \<Rightarrow> [[c]]
            | l # ls \<Rightarrow> (c # l) # ls))"

definition segments :: "string \<Rightarrow> string list" where
  "segments p = filter (\<lambda>s. s \<noteq> []) (splitOn (CHR ''/'') p)"

fun joinSegments :: "string list \<Rightarrow> string" where
  "joinSegments [] = []"
| "joinSegments [s] = s"
| "joinSegments (s # t # ss) = s @ ''/'' @ joinSegments (t # ss)"

definition normalizeSegments :: "string list \<Rightarrow> string list" where
  "normalizeSegments segs =
     fold (\<lambda>s acc. if s = ''.'' then acc else if s = ''..'' then butlast acc else acc @ [s])
       segs []"

definition posixResolve :: "string \<Rightarrow> string \<Rightarrow> string" where
  "posixResolve dir t =
     ''/'' @ joinSegments (normalizeSegments
                             (segments (if startsWith t ''/'' then t else dir @ ''/'' @ t)))"

fun dropCommon :: "string list \<Rightarrow> string list \<Rightarrow> string list \<times> string list" where
  "dropCommon (a # as) (b # bs) = (if a = b then dropCommon as bs else (a # as, b # bs))"
| "dropCommon as bs = (as, bs)"

definition posixRelative :: "string \<Rightarrow> string \<Rightarrow> string" where
  "posixRelative fromPath toPath =
     (case dropCommon (segments fromPath) (segments toPath) of
        (up, down) \<Rightarrow> joinSegments (replicate (length up) ''..'' @ down))"

definition posixIsAbsolute :: "string \<Rightarrow> bool" where
  "posixIsAbsolute p \<longleftrightarrow> startsWith p ''/''"

text \<open>
  A file system with the directories \<open>dirs\<close>, the regular files \<open>files\<close> (path and
  content) and the symbolic links \<open>links\<close> (path and the real path of the file it leads
  to); the working directory is \<open>/\<close>.
\<close>

definition posixEnv2 ::
  "string list \<Rightarrow> (string \<times> string) list \<Rightarrow> (string \<times> string) list \<Rightarrow> env2" where
  "posixEnv2 dirs files links =
     \<lparr>resolve = posixResolve ''/'',
      resolveFrom = posixResolve,
      dirname = posixDirname,
      basename = posixBasename,
      existsSync = (\<lambda>p. p \<in> set dirs \<or> p \<in> set (map fst files) \<or> p \<in> set (map fst links)),
      readFileSync = (\<lambda>p. case map_of links p of
                             Some t \<Rightarrow> map_of files t
                           | None \<Rightarrow> map_of files p),
      relative = posixRelative,
      isAbsolute = posixIsAbsolute,
      sep = ''/'',
      realpathSync = (\<lambda>p. case map_of links p of
                             Some t \<Rightarrow> Some t
                           | None \<Rightarrow> if p \<in> set dirs \<or> p \<in> set (map fst files) then Some p
                                     else None),
      lstatSync = (\<lambda>p. if p \<in> set (map fst links) then Some True
                        else if p \<in> set dirs \<or> p \<in> set (map fst files) then Some False
                        else None)\<rparr>"

text \<open>
  The root \<open>/r\<close> with a document that links to a file above the root, to a symbolic link
  that leads out of the root, and to a second document.
\<close>

definition sandboxFiles :: "(string \<times> string) list" where
  "sandboxFiles =
     [(''/r/a.md'', ''[p](../etc/passwd) [l](link.md) [b](b.md)''), (''/r/b.md'', ''x''),
      (''/etc/passwd'', ''root'')]"

definition sandboxEnv :: env2 where
  "sandboxEnv = posixEnv2 [''/r'', ''/etc''] sandboxFiles [(''/r/link.md'', ''/etc/passwd'')]"

text \<open>The environments of the documents \<open>cycleFiles\<close>, \<open>diamondFiles\<close> and \<open>mailtoFiles\<close>.\<close>

definition cycleEnv :: env2 where
  "cycleEnv = posixEnv2 [''/r''] cycleFiles []"

definition diamondEnv :: env2 where
  "diamondEnv = posixEnv2 [''/r''] diamondFiles []"

definition limits :: "nat \<Rightarrow> nat \<Rightarrow> options" where
  "limits d n = \<lparr>optMaxDepth = d, optMaxCount = n, optFormat = ''summary''\<rparr>"

definition options2 :: "nat \<Rightarrow> nat \<Rightarrow> string \<Rightarrow> options2" where
  "options2 d n rootDir =
     \<lparr>optMaxDepth = d, optMaxCount = n, optFormat = ''summary'', optRootDir = Some rootDir,
      optRootRealPath = None, optNoSymlinks = False\<rparr>"

text \<open>A document of 600 lines whose only reference is an anchor.\<close>

definition longAnchorDocument :: string where
  "longAnchorDocument = blankLines 599 @ ''[top](#top)''"

section \<open>Notions of the statements about the revision\<close>

text \<open>
  Containment as the specification words it: a path is equal to the root or a strict
  descendant of it, that is, the segments of the root begin the segments of the path.
\<close>

definition descendantOrEqual :: "string \<Rightarrow> string \<Rightarrow> bool" where
  "descendantOrEqual rootPath p \<longleftrightarrow>
     take (length (segments rootPath)) (segments p) = segments rootPath"

text \<open>The path functions of the environment are the POSIX ones.\<close>

definition posixPaths :: "env2 \<Rightarrow> bool" where
  "posixPaths E \<longleftrightarrow>
     relative E = posixRelative \<and> isAbsolute E = posixIsAbsolute \<and> sep E = ''/''"

text \<open>
  \<open>path.resolve\<close> returns a normalized absolute path, which it leaves as it is.
\<close>

definition resolveIdempotent :: "env2 \<Rightarrow> bool" where
  "resolveIdempotent E \<longleftrightarrow>
     (\<forall>p. resolve E (resolve E p) = resolve E p)
     \<and> (\<forall>dir t. resolve E (resolveFrom E dir t) = resolveFrom E dir t)"

text \<open>
  A reference is external by its raw target: the target has a URI scheme or starts with
  \<open>http://\<close> or \<open>https://\<close>.
\<close>

definition externalTarget :: "string \<Rightarrow> bool" where
  "externalTarget rawUrl \<longleftrightarrow>
     hasScheme rawUrl \<or> startsWith rawUrl ''http://'' \<or> startsWith rawUrl ''https://''"

section \<open>The steps of \<open>analyzeWithLinks\<close> in the revision\<close>

text \<open>
  A candidate passes the three checks of lines 456-471: it is not visited, the count is not
  reached, and the path exists.
\<close>

definition passes :: "env2 \<Rightarrow> options2 \<Rightarrow> string \<Rightarrow> string list \<Rightarrow> bool" where
  "passes E opts p visited \<longleftrightarrow>
     \<not> setHas visited p \<and> length visited < optMaxCount opts \<and> existsSync E p"

text \<open>The result after lines 490-527, when only the file itself has been recorded.\<close>

definition firstResult2 :: "env2 \<Rightarrow> options2 \<Rightarrow> string \<Rightarrow> nat \<Rightarrow> string \<Rightarrow> result2" where
  "firstResult2 E opts p d content =
     recordAnalyzed2
       (fileResultOf2 E opts p d (analyzeText2 content) (evaluateMetrics2 (analyzeText2 content)))
       emptyResult2"

text \<open>The links of a document as \<open>analyzeWithLinks\<close> extracts them, lines 531 and 573.\<close>

definition linksOf :: "env2 \<Rightarrow> options2 \<Rightarrow> string \<Rightarrow> string \<Rightarrow> linkResult" where
  "linksOf E opts p content =
     extractInternalLinks2 E p content (optRootDir opts) (optNoSymlinks opts)"

text \<open>
  Lines 584-602: the average is computed and, at depth 0, the skip lists are deduplicated.
\<close>

definition finish ::
  "env2 \<Rightarrow> nat \<Rightarrow> failure + (result2 \<times> string list) \<Rightarrow> failure + (result2 \<times> string list)" where
  "finish E d x =
     (case x of
        Inl e \<Rightarrow> Inl e
      | Inr (r2, visited2) \<Rightarrow>
          Inr (if d = 0 then dedupeSkipped E (averageOf2 r2) else averageOf2 r2, visited2))"

text \<open>A path that \<open>path.resolve\<close> has returned, for one argument or for two.\<close>

definition resolvedByPath :: "env2 \<Rightarrow> string \<Rightarrow> bool" where
  "resolvedByPath E p \<longleftrightarrow> (\<exists>x. p = resolve E x) \<or> (\<exists>dir t. p = resolveFrom E dir t)"

text \<open>
  What holds of every result of the traversal: an analyzed file exists, has passed the
  sandbox and was named by \<open>path.resolve\<close>; a file that was not found does not exist;
  and the paths of the skip lists for the depth and for the count were named by
  \<open>path.resolve\<close>.
\<close>

definition sound :: "env2 \<Rightarrow> options2 \<Rightarrow> result2 \<Rightarrow> bool" where
  "sound E opts r \<longleftrightarrow>
     (\<forall>e \<in> set (analyzed2 r).
         existsSync E (fullPath2 e) \<and> resolvedByPath E (fullPath2 e)
         \<and> sandboxCheck E opts (fullPath2 e) (fullPath2 e) = Inr None)
     \<and> (\<forall>p \<in> set (notFound2 r). \<not> existsSync E p)
     \<and> (\<forall>p \<in> set (sk_maxDepth2 (skipped2 r)) \<union> set (sk_maxCount2 (skipped2 r)).
           resolvedByPath E p)"

text \<open>Documents \<open>x.md\<close>, \<open>b.md\<close> and \<open>c.md\<close> that link in a chain.\<close>

definition chainFiles :: "(string \<times> string) list" where
  "chainFiles = [(''/r/x.md'', ''[b](b.md)''), (''/r/b.md'', ''[c](c.md)''), (''/r/c.md'', ''x'')]"

definition chainEnv :: env2 where
  "chainEnv = posixEnv2 [''/r''] chainFiles []"


section \<open>Link counts and the progressive-disclosure score\<close>

lemmas double_simps = mathRound_def weightedSum_def toDouble_def double_0_4_def double_0_3_def bitLength.simps

lemma fold_countLink:
  "fold countLink ms m =
     m\<lparr>totalLinks := totalLinks m + length ms,
       externalLinks := externalLinks m + length (filter (\<lambda>g. isHttpUrl (snd g)) ms),
       internalLinks := internalLinks m + length (filter (\<lambda>g. \<not> isHttpUrl (snd g)) ms)\<rparr>"
  by (induction ms arbitrary: m) (simp_all add: countLink_def Let_def)

lemma links_analyzeLine:
  "totalLinks (analyzeLine li m) = totalLinks m + length (lineTargets (fst li))"
  "externalLinks (analyzeLine li m) =
     externalLinks m + length (filter (\<lambda>g. isHttpUrl (snd g)) (lineTargets (fst li)))"
  "internalLinks (analyzeLine li m) =
     internalLinks m + length (filter (\<lambda>g. \<not> isHttpUrl (snd g)) (lineTargets (fst li)))"
  "totalLines (analyzeLine li m) = totalLines m"
  by (simp_all add: analyzeLine_def Let_def fold_countLink lineTargets_def split: option.split)

lemma links_fold_analyzeLine:
  "totalLinks (fold analyzeLine ps m) =
     totalLinks m + length (concat (map (\<lambda>p. lineTargets (fst p)) ps))
   \<and> externalLinks (fold analyzeLine ps m) =
     externalLinks m
     + length (filter (\<lambda>g. isHttpUrl (snd g)) (concat (map (\<lambda>p. lineTargets (fst p)) ps)))
   \<and> internalLinks (fold analyzeLine ps m) =
     internalLinks m
     + length (filter (\<lambda>g. \<not> isHttpUrl (snd g)) (concat (map (\<lambda>p. lineTargets (fst p)) ps)))
   \<and> totalLines (fold analyzeLine ps m) = totalLines m"
  by (induction ps arbitrary: m) (simp_all add: links_analyzeLine)

lemma map_fst_zip_upt: "map (\<lambda>p. f (fst p)) (zip xs [0..<length xs]) = map f xs"
proof -
  have "map (f \<circ> fst) (zip xs [0..<length xs]) = map f (map fst (zip xs [0..<length xs]))"
    by (simp only: map_map)
  then show ?thesis by (simp add: comp_def)
qed

lemma links_analyzeText:
  "totalLinks (analyzeText content) = length (documentTargets content)"
  "externalLinks (analyzeText content) =
     length (filter (\<lambda>g. isHttpUrl (snd g)) (documentTargets content))"
  "internalLinks (analyzeText content) =
     length (filter (\<lambda>g. \<not> isHttpUrl (snd g)) (documentTargets content))"
  "totalLines (analyzeText content) = length (splitLines content)"
  by (simp_all add: analyzeText_def Let_def links_fold_analyzeLine documentTargets_def
        map_fst_zip_upt)

lemma splitLines_blankLines: "splitLines (blankLines n @ s) = replicate n [] @ splitLines s"
  by (induction n) (simp_all add: blankLines_def)

lemma lineTargets_Nil: "lineTargets [] = []"
  by (simp add: lineTargets_def trim_def)

lemma documentTargets_blankLines: "documentTargets (blankLines n @ s) = documentTargets s"
  by (simp add: documentTargets_def splitLines_blankLines lineTargets_Nil)

lemmas target_simps = documentTargets_def lineTargets_def trim_def isWhitespace_def
  matchLinkAt_def isHttpUrl_def startsWith_def Let_def

lemma metrics_fiveLocalLinks:
  "totalLines (analyzeText fiveLocalLinks) = 600"
  "totalLinks (analyzeText fiveLocalLinks) = 6"
  "internalLinks (analyzeText fiveLocalLinks) = 5"
  unfolding fiveLocalLinks_def links_analyzeText documentTargets_blankLines splitLines_blankLines
  by (simp_all add: target_simps)

lemma metrics_oneLocalLink:
  "totalLines (analyzeText oneLocalLink) = 600"
  "totalLinks (analyzeText oneLocalLink) = 6"
  "internalLinks (analyzeText oneLocalLink) = 1"
  unfolding oneLocalLink_def links_analyzeText documentTargets_blankLines splitLines_blankLines
  by (simp_all add: target_simps)

lemma progressiveDisclosure_evaluateMetrics:
  "progressiveDisclosure (evaluateMetrics m) = progressiveDisclosureOf m"
  by (simp add: evaluateMetrics_def Let_def)




text \<open>
  Claim C10. For every document, \<open>totalLinks = internalLinks + externalLinks\<close>: every match
  of the link pattern on a trimmed line is counted once, as external when its target starts
  with \<open>http://\<close> or \<open>https://\<close> and as internal otherwise.
\<close>

theorem links_partition:
  "totalLinks (analyzeText content)
     = internalLinks (analyzeText content) + externalLinks (analyzeText content)
   \<and> totalLinks (analyzeText content) = length (documentTargets content)
   \<and> externalLinks (analyzeText content)
     = length (filter (\<lambda>g. isHttpUrl (snd g)) (documentTargets content))
   \<and> internalLinks (analyzeText content)
     = length (filter (\<lambda>g. \<not> isHttpUrl (snd g)) (documentTargets content))"
  using sum_length_filter_compl [of "\<lambda>g. isHttpUrl (snd g)" "documentTargets content"]
  by (simp add: links_analyzeText)

text \<open>C10 on a line with a relative link, an anchor and an external link.\<close>

theorem links_partition_witness:
  "totalLinks (analyzeText ''[a](a.md) [t](#top) [w](https://w.org)'') = 3
   \<and> internalLinks (analyzeText ''[a](a.md) [t](#top) [w](https://w.org)'') = 2
   \<and> externalLinks (analyzeText ''[a](a.md) [t](#top) [w](https://w.org)'') = 1"
  using links_partition [of "''[a](a.md) [t](#top) [w](https://w.org)''"]
  by (simp add: target_simps)


section \<open>Invariants of the traversal\<close>

lemma analyzeWithLinks_circular:
  "setHas visited (resolve E filePath) \<or> setHas analyzing (resolve E filePath) \<Longrightarrow>
   analyzeWithLinks E opts filePath d visited analyzing
     = Inr (pushCircular (resolve E filePath) emptyResult, visited, analyzing)"
  by (subst analyzeWithLinks.simps) (auto simp: Let_def)

lemma analyzeWithLinks_full:
  "\<not> setHas visited (resolve E filePath) \<Longrightarrow> \<not> setHas analyzing (resolve E filePath) \<Longrightarrow>
   optMaxCount opts \<le> length visited \<Longrightarrow>
   analyzeWithLinks E opts filePath d visited analyzing
     = Inr (pushMaxCount (resolve E filePath) emptyResult, visited, analyzing)"
  by (subst analyzeWithLinks.simps) (simp add: Let_def)

lemma analyzeWithLinks_notFound:
  "\<not> setHas visited (resolve E filePath) \<Longrightarrow> \<not> setHas analyzing (resolve E filePath) \<Longrightarrow>
   length visited < optMaxCount opts \<Longrightarrow> \<not> existsSync E (resolve E filePath) \<Longrightarrow>
   analyzeWithLinks E opts filePath d visited analyzing
     = Inr (pushNotFound (resolve E filePath) emptyResult, visited, analyzing)"
  by (subst analyzeWithLinks.simps) (simp add: Let_def)

lemma analyzeWithLinks_unreadable:
  "admitted E opts (resolve E filePath) visited analyzing \<Longrightarrow>
   readFileSync E (resolve E filePath) = None \<Longrightarrow>
   analyzeWithLinks E opts filePath d visited analyzing = Inl (ReadFailed (resolve E filePath))"
  by (subst analyzeWithLinks.simps) (simp add: Let_def admitted_def)

lemma analyzeWithLinks_admitted:
  "admitted E opts (resolve E filePath) visited analyzing \<Longrightarrow>
   readFileSync E (resolve E filePath) = Some content \<Longrightarrow>
   analyzeWithLinks E opts filePath d visited analyzing
     = leave (resolve E filePath)
         (if d < optMaxDepth opts then
            fold (followLink (optMaxCount opts)
                    (\<lambda>linkedPath vis an. analyzeWithLinks E opts linkedPath (d + 1) vis an))
              (extractInternalLinks E (resolve E filePath) content)
              (Inr (firstResult E opts (resolve E filePath) d content,
                    visited @ [resolve E filePath], analyzing @ [resolve E filePath]))
          else if d = optMaxDepth opts then
            Inr (fold (recordMaxDepth E (visited @ [resolve E filePath]))
                   (extractInternalLinks E (resolve E filePath) content)
                   (firstResult E opts (resolve E filePath) d content),
                 visited @ [resolve E filePath], analyzing @ [resolve E filePath])
          else Inr (firstResult E opts (resolve E filePath) d content,
                    visited @ [resolve E filePath], analyzing @ [resolve E filePath]))"
  by (subst analyzeWithLinks.simps)
     (simp add: Let_def admitted_def analyzeDocument_def firstResult_def leave_def setAdd_def
        setHas_def split del: if_split cong: if_cong)


lemma emptyResult_fields [simp]:
  "analyzed emptyResult = []" "notFound emptyResult = []"
  "circular (skipped emptyResult) = []" "sk_maxDepth (skipped emptyResult) = []"
  "sk_maxCount (skipped emptyResult) = []"
  by (simp_all add: emptyResult_def)

lemma push_fields [simp]:
  "analyzed (pushCircular p r) = analyzed r" "notFound (pushCircular p r) = notFound r"
  "circular (skipped (pushCircular p r)) = circular (skipped r) @ [p]"
  "sk_maxDepth (skipped (pushCircular p r)) = sk_maxDepth (skipped r)"
  "sk_maxCount (skipped (pushCircular p r)) = sk_maxCount (skipped r)"
  "analyzed (pushMaxDepth p r) = analyzed r" "notFound (pushMaxDepth p r) = notFound r"
  "circular (skipped (pushMaxDepth p r)) = circular (skipped r)"
  "sk_maxDepth (skipped (pushMaxDepth p r)) = sk_maxDepth (skipped r) @ [p]"
  "sk_maxCount (skipped (pushMaxDepth p r)) = sk_maxCount (skipped r)"
  "analyzed (pushMaxCount p r) = analyzed r" "notFound (pushMaxCount p r) = notFound r"
  "circular (skipped (pushMaxCount p r)) = circular (skipped r)"
  "sk_maxDepth (skipped (pushMaxCount p r)) = sk_maxDepth (skipped r)"
  "sk_maxCount (skipped (pushMaxCount p r)) = sk_maxCount (skipped r) @ [p]"
  "analyzed (pushNotFound p r) = analyzed r" "notFound (pushNotFound p r) = notFound r @ [p]"
  "skipped (pushNotFound p r) = skipped r"
  by (simp_all add: pushCircular_def pushMaxDepth_def pushMaxCount_def pushNotFound_def)

lemma averageOf_fields [simp]:
  "analyzed (averageOf r) = analyzed r" "notFound (averageOf r) = notFound r"
  "skipped (averageOf r) = skipped r"
  by (simp_all add: averageOf_def Let_def)

lemma recordAnalyzed_fields [simp]:
  "analyzed (recordAnalyzed fr r) = analyzed r @ [fr]"
  "notFound (recordAnalyzed fr r) = notFound r"
  "skipped (recordAnalyzed fr r) = skipped r"
  by (simp_all add: recordAnalyzed_def Let_def)

lemma mergeLinked_fields [simp]:
  "analyzed (mergeLinked r l) = analyzed r @ analyzed l"
  "notFound (mergeLinked r l) = notFound r @ notFound l"
  "circular (skipped (mergeLinked r l)) = circular (skipped r) @ circular (skipped l)"
  "sk_maxDepth (skipped (mergeLinked r l)) = sk_maxDepth (skipped r) @ sk_maxDepth (skipped l)"
  "sk_maxCount (skipped (mergeLinked r l)) = sk_maxCount (skipped r) @ sk_maxCount (skipped l)"
  by (simp_all add: mergeLinked_def Let_def)

lemma fileResultOf_fields [simp]:
  "fullPath (fileResultOf E opts p d m ev) = p" "depth (fileResultOf E opts p d m ev) = d"
  "evaluation (fileResultOf E opts p d m ev) = ev"
  by (simp_all add: fileResultOf_def)

lemma firstResult_fields [simp]:
  "analyzed (firstResult E opts p d content)
     = [fileResultOf E opts p d (analyzeText content) (evaluateMetrics (analyzeText content))]"
  "notFound (firstResult E opts p d content) = []"
  "circular (skipped (firstResult E opts p d content)) = []"
  "sk_maxDepth (skipped (firstResult E opts p d content)) = []"
  "sk_maxCount (skipped (firstResult E opts p d content)) = []"
  by (simp_all add: firstResult_def)

lemma fold_recordMaxDepth_fields [simp]:
  "analyzed (fold (recordMaxDepth E vis) links r) = analyzed r"
  "notFound (fold (recordMaxDepth E vis) links r) = notFound r"
  "circular (skipped (fold (recordMaxDepth E vis) links r)) = circular (skipped r)"
  "sk_maxCount (skipped (fold (recordMaxDepth E vis) links r)) = sk_maxCount (skipped r)"
  "sk_maxDepth (skipped (fold (recordMaxDepth E vis) links r))
     = sk_maxDepth (skipped r) @ filter (\<lambda>linkedPath. \<not> setHas vis (resolve E linkedPath)) links"
  by (induction links arbitrary: r) (simp_all add: recordMaxDepth_def)

lemma analyzeWithLinks_cases [consumes 1, case_names circular full notFound followed atMaxDepth beyond]:
  assumes "analyzeWithLinks E opts filePath d visited analyzing = Inr (r, visited', analyzing')"
  obtains
    (circular) "setHas visited (resolve E filePath) \<or> setHas analyzing (resolve E filePath)"
      "r = pushCircular (resolve E filePath) emptyResult" "visited' = visited"
      "analyzing' = analyzing"
  | (full) "\<not> setHas visited (resolve E filePath)" "\<not> setHas analyzing (resolve E filePath)"
      "optMaxCount opts \<le> length visited"
      "r = pushMaxCount (resolve E filePath) emptyResult" "visited' = visited"
      "analyzing' = analyzing"
  | (notFound) "\<not> setHas visited (resolve E filePath)" "\<not> existsSync E (resolve E filePath)"
      "r = pushNotFound (resolve E filePath) emptyResult" "visited' = visited"
      "analyzing' = analyzing"
  | (followed) content r2 analyzing2 where
      "admitted E opts (resolve E filePath) visited analyzing"
      "readFileSync E (resolve E filePath) = Some content"
      "d < optMaxDepth opts"
      "fold (followLink (optMaxCount opts)
               (\<lambda>linkedPath vis an. analyzeWithLinks E opts linkedPath (d + 1) vis an))
         (extractInternalLinks E (resolve E filePath) content)
         (Inr (firstResult E opts (resolve E filePath) d content,
               visited @ [resolve E filePath], analyzing @ [resolve E filePath]))
       = Inr (r2, visited', analyzing2)"
      "r = averageOf r2" "analyzing' = setDelete (resolve E filePath) analyzing2"
  | (atMaxDepth) content where
      "admitted E opts (resolve E filePath) visited analyzing"
      "readFileSync E (resolve E filePath) = Some content"
      "d = optMaxDepth opts"
      "r = averageOf (fold (recordMaxDepth E (visited @ [resolve E filePath]))
                        (extractInternalLinks E (resolve E filePath) content)
                        (firstResult E opts (resolve E filePath) d content))"
      "visited' = visited @ [resolve E filePath]"
  | (beyond) content where
      "admitted E opts (resolve E filePath) visited analyzing"
      "readFileSync E (resolve E filePath) = Some content"
      "optMaxDepth opts < d"
      "r = averageOf (firstResult E opts (resolve E filePath) d content)"
      "visited' = visited @ [resolve E filePath]"
proof -
  let ?p = "resolve E filePath"
  consider (a) "setHas visited ?p \<or> setHas analyzing ?p"
    | (b) "\<not> setHas visited ?p" "\<not> setHas analyzing ?p" "optMaxCount opts \<le> length visited"
    | (c) "\<not> setHas visited ?p" "\<not> setHas analyzing ?p" "length visited < optMaxCount opts"
        "\<not> existsSync E ?p"
    | (d) "admitted E opts ?p visited analyzing"
    unfolding admitted_def using not_le_imp_less by blast
  then show thesis
  proof cases
    case a
    from assms have "r = pushCircular ?p emptyResult \<and> visited' = visited \<and> analyzing' = analyzing"
      unfolding analyzeWithLinks_circular [OF a] by simp
    then show ?thesis using circular a by blast
  next
    case b
    from assms have "r = pushMaxCount ?p emptyResult \<and> visited' = visited \<and> analyzing' = analyzing"
      unfolding analyzeWithLinks_full [OF b] by simp
    then show ?thesis using full b by blast
  next
    case c
    from assms have "r = pushNotFound ?p emptyResult \<and> visited' = visited \<and> analyzing' = analyzing"
      unfolding analyzeWithLinks_notFound [OF c] by simp
    then show ?thesis using notFound c by blast
  next
    case d
    show ?thesis
    proof (cases "readFileSync E ?p")
      case None
      from assms show ?thesis
        unfolding analyzeWithLinks_unreadable [OF d None] by simp
    next
      case (Some content)
      note eq = assms [unfolded analyzeWithLinks_admitted [OF d Some]]
      consider (lt) "d < optMaxDepth opts" | (eq) "d = optMaxDepth opts" | (gt) "optMaxDepth opts < d"
        by linarith
      then show ?thesis
      proof cases
        case lt
        let ?f = "fold (followLink (optMaxCount opts)
               (\<lambda>linkedPath vis an. analyzeWithLinks E opts linkedPath (d + 1) vis an))
         (extractInternalLinks E ?p content)
         (Inr (firstResult E opts ?p d content, visited @ [?p], analyzing @ [?p]))"
        from eq lt have l: "leave ?p ?f = Inr (r, visited', analyzing')" by simp
        then obtain r2 analyzing2 where "?f = Inr (r2, visited', analyzing2)"
          "r = averageOf r2" "analyzing' = setDelete ?p analyzing2"
          by (cases ?f) (auto simp: leave_def)
        then show ?thesis using followed [OF d Some lt] by blast
      next
        case eq
        with \<open>leave _ _ = _\<close> have
          "r = averageOf (fold (recordMaxDepth E (visited @ [?p]))
                        (extractInternalLinks E ?p content) (firstResult E opts ?p d content))
           \<and> visited' = visited @ [?p]"
          by (auto simp: leave_def)
        then show ?thesis using atMaxDepth [OF d Some eq] by blast
      next
        case gt
        with eq have "r = averageOf (firstResult E opts ?p d content) \<and> visited' = visited @ [?p]"
          by (auto simp: leave_def)
        then show ?thesis using beyond [OF d Some gt] by blast
      qed
    qed
  qed
qed

lemma fold_followLink_Inl: "fold (followLink n recurse) links (Inl e) = Inl e"
  by (induction links) (simp_all add: followLink_def)

lemma fold_followLink_invariant:
  assumes "fold (followLink n recurse) links (Inr (r0, vis0, an0)) = Inr (r, vis, an)"
    and "I r0 vis0 an0"
    and skip: "\<And>lp r vis an. lp \<in> set links \<Longrightarrow> I r vis an \<Longrightarrow> n \<le> length vis
                 \<Longrightarrow> I (pushMaxCount lp r) vis an"
    and merge: "\<And>lp r vis an rl vis' an'. lp \<in> set links \<Longrightarrow> I r vis an \<Longrightarrow> length vis < n
                 \<Longrightarrow> recurse lp vis an = Inr (rl, vis', an') \<Longrightarrow> I (mergeLinked r rl) vis' an'"
  shows "I r vis an"
  using assms
proof (induction links arbitrary: r0 vis0 an0)
  case Nil
  then show ?case by simp
next
  case (Cons lp links)
  show ?case
  proof (cases "n \<le> length vis0")
    case True
    then have "followLink n recurse lp (Inr (r0, vis0, an0)) = Inr (pushMaxCount lp r0, vis0, an0)"
      by (simp add: followLink_def)
    with Cons.prems(1) have "fold (followLink n recurse) links (Inr (pushMaxCount lp r0, vis0, an0)) = Inr (r, vis, an)"
      by simp
    moreover have "I (pushMaxCount lp r0) vis0 an0"
      by (rule Cons.prems(3) [of lp]) (use Cons.prems(2) True in simp_all)
    ultimately show ?thesis
      using Cons.IH Cons.prems(3,4) by (metis list.set_intros(2))
  next
    case False
    show ?thesis
    proof (cases "recurse lp vis0 an0")
      case (Inl e)
      with False have "followLink n recurse lp (Inr (r0, vis0, an0)) = Inl e"
        by (simp add: followLink_def)
      with Cons.prems(1) show ?thesis by (simp add: fold_followLink_Inl)
    next
      case (Inr x)
      obtain rl vis' an' where x: "x = (rl, vis', an')" by (cases x)
      with Inr False have "followLink n recurse lp (Inr (r0, vis0, an0)) = Inr (mergeLinked r0 rl, vis', an')"
        by (simp add: followLink_def)
      with Cons.prems(1) have "fold (followLink n recurse) links (Inr (mergeLinked r0 rl, vis', an')) = Inr (r, vis, an)"
        by simp
      moreover have "I (mergeLinked r0 rl) vis' an'"
        by (rule Cons.prems(4) [of lp]) (use Cons.prems(2) False Inr x in simp_all)
      ultimately show ?thesis
        using Cons.IH Cons.prems(3,4) by (metis list.set_intros(2))
    qed
  qed
qed

lemma visited_extends:
  "analyzeWithLinks E opts filePath d visited analyzing = Inr (r, visited', analyzing') \<Longrightarrow>
   visited' = visited @ map fullPath (analyzed r)
   \<and> (length visited \<le> optMaxCount opts \<longrightarrow> length visited' \<le> optMaxCount opts)"
proof (induction "optMaxDepth opts - d" arbitrary: filePath d visited analyzing r visited' analyzing'
       rule: less_induct)
  case less
  let ?p = "resolve E filePath"
  from less.prems show ?case
  proof (cases rule: analyzeWithLinks_cases)
    case (followed content r2 analyzing2)
    let ?I = "\<lambda>(r::result) v (a::string list). v = visited @ map fullPath (analyzed r) \<and> length v \<le> optMaxCount opts"
    have "?I r2 visited' analyzing2"
    proof (rule fold_followLink_invariant [OF followed(4), where I = ?I])
      show "?I (firstResult E opts ?p d content) (visited @ [?p]) (analyzing @ [?p])"
        using followed(1) by (simp add: admitted_def)
    next
      fix lp r v a assume "?I r v a"
      then show "?I (pushMaxCount lp r) v a" by auto
    next
      fix lp r v a rl v' a'
      assume I: "?I r v a" and call: "analyzeWithLinks E opts lp (d + 1) v a = Inr (rl, v', a')"
      have "optMaxDepth opts - (d + 1) < optMaxDepth opts - d" using followed(3) by simp
      from less.hyps [OF this call] I
      show "?I (mergeLinked r rl) v' a'" by auto
    qed
    with followed show ?thesis by auto
  qed (auto simp: admitted_def)
qed


lemma reachedBelow_mono:
  "reachedBelow E (Suc d) maxD es e \<Longrightarrow> set es \<subseteq> set es' \<Longrightarrow> reachedBelow E d maxD es' e"
  by (auto simp: reachedBelow_def)

lemma reachedBelow_subset:
  "reachedBelow E d maxD es e \<Longrightarrow> set es \<subseteq> set es' \<Longrightarrow> reachedBelow E d maxD es' e"
  by (auto simp: reachedBelow_def)

lemma analyzed_shaped:
  "analyzeWithLinks E opts filePath d visited analyzing = Inr (r, visited', analyzing') \<Longrightarrow>
   shaped E opts filePath d (analyzed r)"
proof (induction "optMaxDepth opts - d" arbitrary: filePath d visited analyzing r visited' analyzing'
       rule: less_induct)
  case less
  let ?p = "resolve E filePath"
  from less.prems show ?case
  proof (cases rule: analyzeWithLinks_cases)
    case (followed content r2 analyzing2)
    let ?e0 = "fileResultOf E opts ?p d (analyzeText content) (evaluateMetrics (analyzeText content))"
    let ?I = "\<lambda>(r::result) (v::string list) (a::string list).
                \<exists>rest. analyzed r = ?e0 # rest
                  \<and> (\<forall>e \<in> set rest. reachedBelow E d (optMaxDepth opts) (analyzed r) e)"
    have "?I r2 visited' analyzing2"
    proof (rule fold_followLink_invariant [OF followed(4), where I = ?I])
      show "?I (firstResult E opts ?p d content) (visited @ [?p]) (analyzing @ [?p])"
        by simp
    next
      fix lp r v a assume "?I r v a"
      then show "?I (pushMaxCount lp r) v a" by simp
    next
      fix lp r v a rl v' a'
      assume lp: "lp \<in> set (extractInternalLinks E ?p content)"
        and I: "?I r v a"
        and call: "analyzeWithLinks E opts lp (d + 1) v a = Inr (rl, v', a')"
      from I obtain rest where rest: "analyzed r = ?e0 # rest"
        and below: "\<forall>e \<in> set rest. reachedBelow E d (optMaxDepth opts) (analyzed r) e"
        by blast
      have "optMaxDepth opts - (d + 1) < optMaxDepth opts - d" using followed(3) by simp
      from less.hyps [OF this call] have child: "shaped E opts lp (d + 1) (analyzed rl)" .
      let ?all = "analyzed r @ analyzed rl"
      have old: "\<forall>e \<in> set rest. reachedBelow E d (optMaxDepth opts) ?all e"
        using below by (auto intro: reachedBelow_subset)
      have new: "\<forall>e \<in> set (analyzed rl). reachedBelow E d (optMaxDepth opts) ?all e"
      proof (cases "analyzed rl")
        case Nil
        then show ?thesis by simp
      next
        case (Cons e1 rest1)
        with child have e1: "fullPath e1 = resolve E lp" "depth e1 = d + 1"
          "existsSync E (fullPath e1)"
          and tl: "\<forall>e \<in> set rest1. reachedBelow E (d + 1) (optMaxDepth opts) (analyzed rl) e"
          by (auto simp: shaped_def)
        have "linkedFrom E ?e0 e1"
          using followed(2) lp e1 by (auto simp: linkedFrom_def)
        then have "reachedBelow E d (optMaxDepth opts) ?all e1"
          using e1 followed(3) rest by (auto simp: reachedBelow_def)
        moreover have "\<forall>e \<in> set rest1. reachedBelow E d (optMaxDepth opts) ?all e"
          using tl by (auto intro: reachedBelow_mono)
        ultimately show ?thesis using Cons by simp
      qed
      from rest old new show "?I (mergeLinked r rl) v' a'" by auto
    qed
    then obtain rest where "analyzed r2 = ?e0 # rest"
      "\<forall>e \<in> set rest. reachedBelow E d (optMaxDepth opts) (analyzed r2) e" by blast
    with followed(1,5) show ?thesis by (auto simp: shaped_def admitted_def)
  qed (auto simp: shaped_def admitted_def)
qed

lemma linkedAnalysis_Inr:
  "linkedAnalysis E opts filePath = Inr r \<Longrightarrow>
   \<exists>visited' analyzing'. analyzeWithLinks E opts filePath 0 [] [] = Inr (r, visited', analyzing')"
  by (auto simp: linkedAnalysis_def split: sum.splits)


lemma evaluateMetrics_perfect:
  assumes "totalLines m \<le> 200" "maxDepth m \<le> 4" "sectionCount m \<le> 20"
    "avgSectionLength m = 0 \<or> 15 \<le> avgSectionLength m"
  shows "evaluateMetrics m
           = \<lparr>lineCount = 10, structureScore = 10, progressiveDisclosure = 10, overall = 10\<rparr>"
proof -
  have "mathRound (weightedSum 10 10 10) = 10" by (simp add: double_simps Let_def)
  moreover have "lineCountOf m = 10" "progressiveDisclosureOf m = 10"
    using assms by (simp_all add: lineCountOf_def progressiveDisclosureOf_def)
  moreover have "structureOf m = 10" using assms by (auto simp: structureOf_def Let_def)
  ultimately show ?thesis by (simp add: evaluateMetrics_def Let_def)
qed

lemmas text_simps = analyzeText_def analyzeLine_def countLink_def headerMatch_def nonEmpty_def
  trim_def isWhitespace_def isLineTerminator_def matchLinkAt_def startsWith_def isHttpUrl_def Let_def

lemma example_scores:
  "evaluateMetrics (analyzeText ''[b](b.md) [c](c.md)'') = perfect"
  "evaluateMetrics (analyzeText ''[c](c.md)'') = perfect"
  "evaluateMetrics (analyzeText ''x'') = perfect"
  "evaluateMetrics (analyzeText ''[b](b.md)'') = perfect"
  "evaluateMetrics (analyzeText ''[a](a.md)'') = perfect"
  "evaluateMetrics (analyzeText ''A short note.'') = perfect"
  unfolding perfect_def by (rule evaluateMetrics_perfect; simp add: text_simps)+

lemmas link_simps = extractInternalLinks_def pushInternalLink_def setAdd_def matchLinkAt_def
  startsWith_def posixDirname_def posixBasename_def posixResolveFrom_def Let_def

lemmas walk_simps = linkedAnalysis_def analyzeWithLinks_circular analyzeWithLinks_full
  analyzeWithLinks_notFound analyzeWithLinks_unreadable analyzeWithLinks_admitted admitted_def
  setHas_def setDelete_def posixEnv_def options_def followLink_def leave_def firstResult_def
  recordAnalyzed_def fileResultOf_def emptyResult_def mergeLinked_def averageOf_def
  pushCircular_def pushMaxDepth_def pushMaxCount_def pushNotFound_def recordMaxDepth_def
  example_scores perfect_def link_simps

lemma walk_diamond:
  "map_sum id (\<lambda>r. (map (\<lambda>e. (fullPath e, depth e)) (analyzed r), sk_maxDepth (skipped r)))
     (linkedAnalysis (posixEnv diamondFiles) (options 1 10) ''/r/a.md'')
   = Inr ([(''/r/a.md'', 0), (''/r/b.md'', 1), (''/r/c.md'', 1)], [''/r/c.md''])"
  by (simp add: walk_simps diamondFiles_def split del: if_split)

lemma walk_count:
  "map_sum id (\<lambda>r. (map fullPath (analyzed r), sk_maxCount (skipped r)))
     (linkedAnalysis (posixEnv diamondFiles) (options 1 1) ''/r/a.md'')
   = Inr ([''/r/a.md''], [''/r/b.md'', ''/r/c.md''])"
  by (simp add: walk_simps diamondFiles_def split del: if_split)

lemma walk_single:
  "map_sum id (\<lambda>r. (map (\<lambda>e. (fullPath e, overall (evaluation e))) (analyzed r), summary r))
     (linkedAnalysis (posixEnv singleFiles) (options 1 10) ''/r/a.md'')
   = Inr ([(''/r/a.md'', 10)],
          \<lparr>totalAnalyzed = 1, averageScore = 10, worstScore = 10, worstFile = None\<rparr>)"
  by (simp add: walk_simps singleFiles_def split del: if_split)


lemma map_sum_Inr_iff: "map_sum id f x = Inr v \<longleftrightarrow> (\<exists>r. x = Inr r \<and> f r = v)"
  by (cases x) auto

text \<open>
  Claim C2. A traversal with maximal count \<open>N\<close> ends with at most \<open>N\<close> analyzed
  files. A candidate that arrives when \<open>visited\<close> has \<open>N\<close> elements or more is pushed
  to \<open>skipped.maxCount\<close> and not analyzed: a link in the loop of lines 223-228, whatever
  the recursive call would do, and the entry point itself when \<open>N\<close> is 0.
\<close>

theorem count_bound:
  "(linkedAnalysis E opts filePath = Inr r \<longrightarrow> length (analyzed r) \<le> optMaxCount opts)
   \<and> (optMaxCount opts \<le> length visited \<longrightarrow>
        followLink (optMaxCount opts) recurse linkedPath (Inr (r0, visited, analyzing))
          = Inr (pushMaxCount linkedPath r0, visited, analyzing)
        \<and> analyzed (pushMaxCount linkedPath r0) = analyzed r0
        \<and> sk_maxCount (skipped (pushMaxCount linkedPath r0))
            = sk_maxCount (skipped r0) @ [linkedPath])
   \<and> (optMaxCount opts = 0 \<longrightarrow>
        linkedAnalysis E opts filePath = Inr (pushMaxCount (resolve E filePath) emptyResult))"
proof (intro conjI impI)
  assume "linkedAnalysis E opts filePath = Inr r"
  then obtain visited' analyzing'
    where "analyzeWithLinks E opts filePath 0 [] [] = Inr (r, visited', analyzing')"
    using linkedAnalysis_Inr by blast
  note ext = visited_extends [OF this]
  from ext [THEN conjunct1] have eq: "visited' = map fullPath (analyzed r)" by simp
  from ext [THEN conjunct2] have le: "length visited' \<le> optMaxCount opts" by simp
  show "length (analyzed r) \<le> optMaxCount opts" using le unfolding eq by simp
next
  assume "optMaxCount opts \<le> length visited"
  then show "followLink (optMaxCount opts) recurse linkedPath (Inr (r0, visited, analyzing))
          = Inr (pushMaxCount linkedPath r0, visited, analyzing)"
    by (simp add: followLink_def)
next
  assume "optMaxCount opts = 0"
  then show "linkedAnalysis E opts filePath = Inr (pushMaxCount (resolve E filePath) emptyResult)"
    by (simp add: linkedAnalysis_def analyzeWithLinks_full setHas_def)
qed simp_all

text \<open>
  C2 with the maximal count 1 on a document with two links: only the document is analyzed
  and both links are skipped for the count; with the maximal count 0 the entry point is.
\<close>

theorem count_bound_witness:
  "(\<exists>r. linkedAnalysis (posixEnv diamondFiles) (options 1 1) ''/r/a.md'' = Inr r
        \<and> map fullPath (analyzed r) = [''/r/a.md'']
        \<and> sk_maxCount (skipped r) = [''/r/b.md'', ''/r/c.md'']
        \<and> length (analyzed r) \<le> optMaxCount (options 1 1))
   \<and> optMaxCount (options 1 1) \<le> length [''/r/a.md'']
   \<and> followLink (optMaxCount (options 1 1)) (\<lambda>p v a. Inl (ReadFailed p)) ''/r/b.md''
         (Inr (emptyResult, [''/r/a.md''], []))
       = Inr (pushMaxCount ''/r/b.md'' emptyResult, [''/r/a.md''], [])
   \<and> optMaxCount (options 1 0) = 0
   \<and> linkedAnalysis (posixEnv diamondFiles) (options 1 0) ''/r/a.md''
       = Inr (pushMaxCount ''/r/a.md'' emptyResult)"
proof -
  obtain r where r: "linkedAnalysis (posixEnv diamondFiles) (options 1 1) ''/r/a.md'' = Inr r"
    and v: "map fullPath (analyzed r) = [''/r/a.md'']"
      "sk_maxCount (skipped r) = [''/r/b.md'', ''/r/c.md'']"
    using walk_count by (auto simp: map_sum_Inr_iff)
  have c1: "optMaxCount (options 1 1) \<le> length [''/r/a.md'']" by (simp add: options_def)
  have c0: "optMaxCount (options 1 0) = 0" by (simp add: options_def)
  have e: "resolve (posixEnv diamondFiles) ''/r/a.md'' = ''/r/a.md''" by (simp add: posixEnv_def)
  note a = count_bound [of "posixEnv diamondFiles" "options 1 1" "''/r/a.md''" r "[''/r/a.md'']"
      "\<lambda>p v a. Inl (ReadFailed p)" "''/r/b.md''" emptyResult "[]"]
  note b = count_bound [of "posixEnv diamondFiles" "options 1 0" "''/r/a.md''" r "[]"
      "\<lambda>p v a. Inl (ReadFailed p)" "''/r/b.md''" emptyResult "[]"]
  from a r have "length (analyzed r) \<le> optMaxCount (options 1 1)" by simp
  with r v have first:
    "\<exists>r. linkedAnalysis (posixEnv diamondFiles) (options 1 1) ''/r/a.md'' = Inr r
        \<and> map fullPath (analyzed r) = [''/r/a.md'']
        \<and> sk_maxCount (skipped r) = [''/r/b.md'', ''/r/c.md'']
        \<and> length (analyzed r) \<le> optMaxCount (options 1 1)"
    by (intro exI [of _ r] conjI)
  from a c1 have second:
    "followLink (optMaxCount (options 1 1)) (\<lambda>p v a. Inl (ReadFailed p)) ''/r/b.md''
         (Inr (emptyResult, [''/r/a.md''], []))
       = Inr (pushMaxCount ''/r/b.md'' emptyResult, [''/r/a.md''], [])"
    by simp
  from b c0 e have third:
    "linkedAnalysis (posixEnv diamondFiles) (options 1 0) ''/r/a.md''
       = Inr (pushMaxCount ''/r/a.md'' emptyResult)"
    by simp
  from first c1 second c0 third show ?thesis by (intro conjI)
qed

text \<open>
  Claim C3. A traversal with maximal depth \<open>D\<close> analyzes no file at a depth above
  \<open>D\<close>: every analyzed file but the entry point was linked from an analyzed file of a
  depth below \<open>D\<close> and lies one level deeper. A call at depth exactly \<open>D\<close> that passes
  the checks analyzes its file alone and records in \<open>skipped.maxDepth\<close> those of its
  links that are not in \<open>visited\<close>.
\<close>

theorem depth_bound:
  "(linkedAnalysis E opts filePath = Inr r \<longrightarrow>
      (\<forall>e \<in> set (analyzed r). depth e \<le> optMaxDepth opts)
      \<and> (\<forall>e \<in> set (tl (analyzed r)).
            \<exists>e' \<in> set (analyzed r). linkedFrom E e' e \<and> depth e' < optMaxDepth opts))
   \<and> (admitted E opts (resolve E filePath) visited analyzing
        \<and> readFileSync E (resolve E filePath) = Some content \<and> d = optMaxDepth opts \<longrightarrow>
      (\<exists>r' analyzing'.
          analyzeWithLinks E opts filePath d visited analyzing
            = Inr (r', visited @ [resolve E filePath], analyzing')
          \<and> map fullPath (analyzed r') = [resolve E filePath]
          \<and> sk_maxDepth (skipped r')
              = filter (\<lambda>linkedPath. \<not> setHas (visited @ [resolve E filePath]) (resolve E linkedPath))
                  (extractInternalLinks E (resolve E filePath) content)))"
proof (intro conjI impI)
  assume "linkedAnalysis E opts filePath = Inr r"
  then obtain visited' analyzing'
    where "analyzeWithLinks E opts filePath 0 [] [] = Inr (r, visited', analyzing')"
    using linkedAnalysis_Inr by blast
  then have sh: "shaped E opts filePath 0 (analyzed r)" by (rule analyzed_shaped)
  show "\<forall>e \<in> set (analyzed r). depth e \<le> optMaxDepth opts"
    using sh by (auto simp: shaped_def reachedBelow_def)
  show "\<forall>e \<in> set (tl (analyzed r)).
          \<exists>e' \<in> set (analyzed r). linkedFrom E e' e \<and> depth e' < optMaxDepth opts"
  proof
    fix e assume e: "e \<in> set (tl (analyzed r))"
    with sh have "reachedBelow E 0 (optMaxDepth opts) (analyzed r) e"
      by (auto simp: shaped_def)
    then obtain e' where "e' \<in> set (analyzed r)" "linkedFrom E e' e" "depth e \<le> optMaxDepth opts"
      by (auto simp: reachedBelow_def)
    moreover from this have "depth e' < optMaxDepth opts" by (auto simp: linkedFrom_def)
    ultimately show "\<exists>e' \<in> set (analyzed r). linkedFrom E e' e \<and> depth e' < optMaxDepth opts"
      by blast
  qed
next
  assume a: "admitted E opts (resolve E filePath) visited analyzing
        \<and> readFileSync E (resolve E filePath) = Some content \<and> d = optMaxDepth opts"
  then show "\<exists>r' analyzing'.
          analyzeWithLinks E opts filePath d visited analyzing
            = Inr (r', visited @ [resolve E filePath], analyzing')
          \<and> map fullPath (analyzed r') = [resolve E filePath]
          \<and> sk_maxDepth (skipped r')
              = filter (\<lambda>linkedPath. \<not> setHas (visited @ [resolve E filePath]) (resolve E linkedPath))
                  (extractInternalLinks E (resolve E filePath) content)"
    by (simp add: analyzeWithLinks_admitted leave_def)
qed

text \<open>
  C3 with the maximal depth 1 on the three documents of \<open>diamondFiles\<close>, and the call for
  \<open>b.md\<close> at depth 1.
\<close>

theorem depth_bound_witness:
  "(\<exists>r. linkedAnalysis (posixEnv diamondFiles) (options 1 10) ''/r/a.md'' = Inr r
        \<and> map (\<lambda>e. (fullPath e, depth e)) (analyzed r)
            = [(''/r/a.md'', 0), (''/r/b.md'', 1), (''/r/c.md'', 1)]
        \<and> list_all (\<lambda>e. depth e \<le> optMaxDepth (options 1 10)) (analyzed r)
        \<and> list_all (\<lambda>e. list_ex (\<lambda>e'. linkedFrom (posixEnv diamondFiles) e' e \<and> depth e' < 1)
                            (analyzed r)) (tl (analyzed r)))
   \<and> admitted (posixEnv diamondFiles) (options 1 10) ''/r/b.md'' [''/r/a.md''] [''/r/a.md'']
   \<and> readFileSync (posixEnv diamondFiles) ''/r/b.md'' = Some ''[c](c.md)''
   \<and> (\<exists>r' analyzing'.
         analyzeWithLinks (posixEnv diamondFiles) (options 1 10) ''/r/b.md'' 1
             [''/r/a.md''] [''/r/a.md'']
           = Inr (r', [''/r/a.md'', ''/r/b.md''], analyzing')
         \<and> sk_maxDepth (skipped r') = [''/r/c.md''])"
proof -
  let ?E = "posixEnv diamondFiles"
  obtain r where r: "linkedAnalysis ?E (options 1 10) ''/r/a.md'' = Inr r"
    and v: "map (\<lambda>e. (fullPath e, depth e)) (analyzed r)
              = [(''/r/a.md'', 0), (''/r/b.md'', 1), (''/r/c.md'', 1)]"
    using walk_diamond by (auto simp: map_sum_Inr_iff)
  have adm: "admitted ?E (options 1 10) ''/r/b.md'' [''/r/a.md''] [''/r/a.md'']"
    by (simp add: admitted_def setHas_def options_def posixEnv_def diamondFiles_def)
  have rd: "readFileSync ?E ''/r/b.md'' = Some ''[c](c.md)''"
    by (simp add: posixEnv_def diamondFiles_def)
  have res: "resolve ?E ''/r/b.md'' = ''/r/b.md''" "optMaxDepth (options 1 10) = 1"
    by (simp_all add: posixEnv_def options_def)
  have links: "filter (\<lambda>linkedPath. \<not> setHas [''/r/a.md'', ''/r/b.md''] (resolve ?E linkedPath))
                 (extractInternalLinks ?E ''/r/b.md'' ''[c](c.md)'') = [''/r/c.md'']"
    by (simp add: link_simps setHas_def posixEnv_def)
  note t = depth_bound [where E = ?E and opts = "options 1 10" and filePath = "''/r/a.md''"
      and r = r]
  note u = depth_bound [where E = ?E and opts = "options 1 10" and filePath = "''/r/b.md''"
      and visited = "[''/r/a.md'']" and analyzing = "[''/r/a.md'']" and content = "''[c](c.md)''"
      and d = 1 and r = r]
  from t r have
    "\<forall>e \<in> set (analyzed r). depth e \<le> optMaxDepth (options 1 10)"
    "\<forall>e \<in> set (tl (analyzed r)).
       \<exists>e' \<in> set (analyzed r). linkedFrom ?E e' e \<and> depth e' < optMaxDepth (options 1 10)"
    by blast+
  then have l: "list_all (\<lambda>e. depth e \<le> optMaxDepth (options 1 10)) (analyzed r)"
    "list_all (\<lambda>e. list_ex (\<lambda>e'. linkedFrom ?E e' e \<and> depth e' < 1) (analyzed r))
       (tl (analyzed r))"
    by (simp_all add: list_all_iff list_ex_iff options_def)
  from u adm rd res links have third:
    "\<exists>r' analyzing'.
         analyzeWithLinks ?E (options 1 10) ''/r/b.md'' 1 [''/r/a.md''] [''/r/a.md'']
           = Inr (r', [''/r/a.md'', ''/r/b.md''], analyzing')
         \<and> sk_maxDepth (skipped r') = [''/r/c.md'']"
    by auto
  from r v l have first:
    "\<exists>r. linkedAnalysis ?E (options 1 10) ''/r/a.md'' = Inr r
        \<and> map (\<lambda>e. (fullPath e, depth e)) (analyzed r)
            = [(''/r/a.md'', 0), (''/r/b.md'', 1), (''/r/c.md'', 1)]
        \<and> list_all (\<lambda>e. depth e \<le> optMaxDepth (options 1 10)) (analyzed r)
        \<and> list_all (\<lambda>e. list_ex (\<lambda>e'. linkedFrom ?E e' e \<and> depth e' < 1)
                            (analyzed r)) (tl (analyzed r))"
    by (intro exI [of _ r] conjI)
  from first adm rd third show ?thesis by (intro conjI)
qed


section \<open>The summary\<close>

lemma bitLength_bounds: "0 < v \<Longrightarrow> 2 ^ (bitLength v - 1) \<le> v \<and> v < 2 ^ bitLength v"
proof (induction v rule: bitLength.induct)
  case (1 n)
  show ?case
  proof (cases "n div 2 = 0")
    case True
    with "1.prems" have "n = 1" by (simp add: div_eq_0_iff) 
    then show ?thesis by (simp add: bitLength.simps)
  next
    case False
    then have pos: "0 < n div 2" by simp
    from "1.prems" have n0: "n \<noteq> 0" by simp
    from "1.IH" [OF n0 pos]
    have lo: "2 ^ (bitLength (n div 2) - 1) \<le> n div 2" and hi: "n div 2 < 2 ^ bitLength (n div 2)"
      by simp_all
    have b: "bitLength n = Suc (bitLength (n div 2))" using n0 by (subst bitLength.simps) simp
    have bpos: "0 < bitLength (n div 2)" using pos by (subst bitLength.simps) simp
    then obtain k where k: "bitLength (n div 2) = Suc k" by (cases "bitLength (n div 2)") simp_all
    have "2 ^ (bitLength n - 1) = 2 * 2 ^ k" using b k by simp
    also have "\<dots> \<le> 2 * (n div 2)" using lo k by simp
    also have "\<dots> \<le> n" by simp
    finally have 1: "2 ^ (bitLength n - 1) \<le> n" .
    have "n < 2 * (n div 2) + 2" by presburger
    also have "\<dots> \<le> 2 * 2 ^ bitLength (n div 2)" using hi by simp
    also have "\<dots> = 2 ^ bitLength n" using b by simp
    finally have 2: "n < 2 ^ bitLength n" .
    from 1 2 show ?thesis by simp
  qed
qed

lemma toDouble_le: "1024 * toDouble v \<le> 1025 * v"
proof (cases "bitLength v \<le> 53")
  case True
  then show ?thesis by (simp add: toDouble_def)
next
  case False
  define s where "s = bitLength v - 53"
  define q where "q = v div 2 ^ s"
  from False have s: "bitLength v - 1 = s + 52" "0 < s" by (simp_all add: s_def)
  have vpos: "0 < v" using False by (cases "v = 0") (simp_all add: bitLength.simps)
  have "(2::nat) ^ s * 1024 \<le> 2 ^ s * 2 ^ 52" by simp
  also have "\<dots> = 2 ^ (bitLength v - 1)" using s by (simp add: power_add)
  also have "\<dots> \<le> v" using bitLength_bounds [OF vpos] by simp
  finally have ulp: "2 ^ s * 1024 \<le> v" .
  have qv: "q * 2 ^ s \<le> v" unfolding q_def by simp
  have "toDouble v \<le> (q + 1) * 2 ^ s"
    using False by (simp add: toDouble_def Let_def s_def [symmetric] q_def [symmetric])
  also have "\<dots> = q * 2 ^ s + 2 ^ s" by (simp add: algebra_simps)
  finally have "toDouble v \<le> v + 2 ^ s" using qv by linarith
  with ulp show ?thesis by linarith
qed

lemma weightedSum_le:
  assumes "a \<le> 10" "b \<le> 10" "c \<le> 10"
  shows "mathRound (weightedSum a b c) \<le> 10"
proof -
  define A where "A = toDouble (a * double_0_4)"
  define B where "B = toDouble (b * double_0_3)"
  define C where "C = toDouble (c * double_0_3)"
  define S1 where "S1 = toDouble (A + B)"
  define S2 where "S2 = toDouble (S1 + C)"
  have "1024 * A \<le> 1025 * (a * double_0_4)" unfolding A_def by (rule toDouble_le)
  also have "\<dots> \<le> 1025 * (10 * double_0_4)" using assms(1) by simp
  finally have a: "1024 * A \<le> 73859033888876138500" by (simp add: double_0_4_def)
  have "1024 * B \<le> 1025 * (b * double_0_3)" unfolding B_def by (rule toDouble_le)
  also have "\<dots> \<le> 1025 * (10 * double_0_3)" using assms(2) by simp
  finally have b: "1024 * B \<le> 55394275416657098750" by (simp add: double_0_3_def)
  have "1024 * C \<le> 1025 * (c * double_0_3)" unfolding C_def by (rule toDouble_le)
  also have "\<dots> \<le> 1025 * (10 * double_0_3)" using assms(3) by simp
  finally have c: "1024 * C \<le> 55394275416657098750" by (simp add: double_0_3_def)
  have "1048576 * S1 = 1024 * (1024 * S1)" by simp
  also have "\<dots> \<le> 1024 * (1025 * (A + B))"
    unfolding S1_def by (intro mult_le_mono2 toDouble_le)
  also have "\<dots> = 1025 * (1024 * A) + 1025 * (1024 * B)" by (simp add: algebra_simps)
  also have "\<dots> \<le> 1025 * 73859033888876138500 + 1025 * 55394275416657098750"
    by (intro add_mono mult_le_mono2 a b)
  finally have s1: "1048576 * S1 \<le> 132484642038171568181250" by simp
  have "1073741824 * S2 = 1048576 * (1024 * S2)" by simp
  also have "\<dots> \<le> 1048576 * (1025 * (S1 + C))"
    unfolding S2_def by (intro mult_le_mono2 toDouble_le)
  also have "\<dots> = 1025 * (1048576 * S1) + 1025 * 1024 * (1024 * C)" by (simp add: algebra_simps)
  also have "\<dots> \<le> 1025 * 132484642038171568181250 + 1025 * 1024 * 55394275416657098750"
    by (intro add_mono mult_le_mono2 s1 c)
  finally have s2: "1073741824 * S2 \<le> 193938589566449148233781250" by simp
  have "S2 + 9007199254740992 < 11 * 18014398509481984"
  proof (rule ccontr)
    assume "\<not> S2 + 9007199254740992 < 11 * 18014398509481984"
    then have "189151184349560832 \<le> S2" by simp
    then have "1073741824 * 189151184349560832 \<le> 1073741824 * S2" by (rule mult_le_mono2)
    with s2 show False by simp
  qed
  then have "(S2 + 9007199254740992) div 18014398509481984 < 11"
    by (simp add: less_mult_imp_div_less)
  moreover have "weightedSum a b c = S2"
    by (simp add: weightedSum_def S2_def S1_def A_def B_def C_def)
  ultimately show ?thesis by (simp add: mathRound_def)
qed

lemma overall_le_10: "overall (evaluateMetrics m) \<le> 10"
proof -
  have "lineCountOf m \<le> 10" by (simp add: lineCountOf_def)
  moreover have "structureOf m \<le> 10" by (simp add: structureOf_def Let_def)
  moreover have "progressiveDisclosureOf m \<le> 10" by (simp add: progressiveDisclosureOf_def)
  ultimately have "mathRound (weightedSum (nat (lineCountOf m)) (nat (structureOf m))
                     (nat (progressiveDisclosureOf m))) \<le> 10"
    by (intro weightedSum_le) simp_all
  then show ?thesis by (simp add: evaluateMetrics_def Let_def)
qed


lemma find_append_cases:
  "find P (xs @ ys) = (case find P xs of None \<Rightarrow> find P ys | Some x \<Rightarrow> Some x)"
  by (induction xs) simp_all

lemma Min_insert10_append:
  "Min (insert 10 (set (map scoreOf (es1 @ es2))))
     = min (Min (insert 10 (set (map scoreOf es1)))) (Min (insert (10::int) (set (map scoreOf es2))))"
proof -
  have "insert 10 (set (map scoreOf (es1 @ es2)))
          = insert 10 (set (map scoreOf es1)) \<union> insert 10 (set (map scoreOf es2))" by auto
  then show ?thesis by (simp only: Min_Un [OF finite_insert [THEN iffD2, OF finite_set] insert_not_empty
        finite_insert [THEN iffD2, OF finite_set] insert_not_empty])
qed

lemma summary_fields [simp]:
  "summary (pushCircular p r) = summary r" "summary (pushMaxDepth p r) = summary r"
  "summary (pushMaxCount p r) = summary r" "summary (pushNotFound p r) = summary r"
  "worstScore (summary (averageOf r)) = worstScore (summary r)"
  "worstFile (summary (averageOf r)) = worstFile (summary r)"
  "worstScore (summary emptyResult) = 10" "worstFile (summary emptyResult) = None"
  by (simp_all add: pushCircular_def pushMaxDepth_def pushMaxCount_def pushNotFound_def
        averageOf_def Let_def emptyResult_def)

lemma summary_fold_recordMaxDepth [simp]:
  "summary (fold (recordMaxDepth E vis) links r) = summary r"
  by (induction links arbitrary: r) (simp_all add: recordMaxDepth_def)

lemma tracksWorst_simple [simp]:
  "tracksWorst emptyResult"
  "tracksWorst (pushCircular p r) = tracksWorst r"
  "tracksWorst (pushMaxCount p r) = tracksWorst r"
  "tracksWorst (pushNotFound p r) = tracksWorst r"
  "tracksWorst (averageOf r) = tracksWorst r"
  "tracksWorst (fold (recordMaxDepth E vis) links r) = tracksWorst r"
  by (simp_all add: tracksWorst_def)

lemma tracksWorst_firstResult: "tracksWorst (firstResult E opts p d content)"
  by (simp add: tracksWorst_def firstResult_def recordAnalyzed_def Let_def emptyResult_def
        scoreOf_def)

lemma tracksWorst_mergeLinked:
  assumes r: "tracksWorst r" and l: "tracksWorst l"
  shows "tracksWorst (mergeLinked r l)"
proof -
  let ?w1 = "worstScore (summary r)" and ?w2 = "worstScore (summary l)"
  let ?P = "\<lambda>w e. scoreOf e = w"
  have w1: "?w1 = Min (insert 10 (set (map scoreOf (analyzed r))))"
    and f1: "worstFile (summary r)
               = (if ?w1 < 10 then map_option fullPath (find (?P ?w1) (analyzed r)) else None)"
    using r by (simp_all add: tracksWorst_def)
  have w2: "?w2 = Min (insert 10 (set (map scoreOf (analyzed l))))"
    and f2: "worstFile (summary l)
               = (if ?w2 < 10 then map_option fullPath (find (?P ?w2) (analyzed l)) else None)"
    using l by (simp_all add: tracksWorst_def)
  have le1: "?w1 \<le> 10" unfolding w1 by simp
  have all1: "\<forall>e \<in> set (analyzed r). ?w1 \<le> scoreOf e" unfolding w1 by simp
  have m: "Min (insert 10 (set (map scoreOf (analyzed r @ analyzed l)))) = min ?w1 ?w2"
    unfolding w1 w2 by (rule Min_insert10_append)
  show ?thesis
  proof (cases "?w2 < ?w1")
    case True
    then have ws: "worstScore (summary (mergeLinked r l)) = ?w2"
      and wf: "worstFile (summary (mergeLinked r l)) = worstFile (summary l)"
      by (simp_all add: mergeLinked_def Let_def)
    from True all1 have "find (?P ?w2) (analyzed r) = None"
      by (auto simp: find_None_iff)
    then have "find (?P ?w2) (analyzed r @ analyzed l) = find (?P ?w2) (analyzed l)"
      by (simp add: find_append_cases)
    with True le1 f2 ws wf m show ?thesis
      by (simp add: tracksWorst_def)
  next
    case False
    then have ws: "worstScore (summary (mergeLinked r l)) = ?w1"
      and wf: "worstFile (summary (mergeLinked r l)) = worstFile (summary r)"
      by (simp_all add: mergeLinked_def Let_def)
    have fa: "find (?P ?w1) (analyzed r @ analyzed l) = find (?P ?w1) (analyzed r)" if "?w1 < 10"
    proof -
      have "?w1 \<in> insert 10 (set (map scoreOf (analyzed r)))"
        unfolding w1 by (rule Min_in) simp_all
      with that have "\<exists>e \<in> set (analyzed r). scoreOf e = ?w1" by auto
      then obtain x where "find (?P ?w1) (analyzed r) = Some x"
        by (cases "find (?P ?w1) (analyzed r)") (auto simp: find_None_iff)
      then show ?thesis by (simp add: find_append_cases)
    qed
    from False have "min ?w1 ?w2 = ?w1" by simp
    with f1 ws wf m fa show ?thesis
      by (simp add: tracksWorst_def)
  qed
qed

lemma worst_tracked:
  "analyzeWithLinks E opts filePath d visited analyzing = Inr (r, visited', analyzing') \<Longrightarrow>
   tracksWorst r \<and> (\<forall>e \<in> set (analyzed r). scoreOf e \<le> 10)"
proof (induction "optMaxDepth opts - d" arbitrary: filePath d visited analyzing r visited' analyzing'
       rule: less_induct)
  case less
  let ?p = "resolve E filePath"
  have first: "\<forall>e \<in> set (analyzed (firstResult E opts ?p d content)). scoreOf e \<le> 10" for content
    by (simp add: scoreOf_def overall_le_10)
  from less.prems show ?case
  proof (cases rule: analyzeWithLinks_cases)
    case (followed content r2 analyzing2)
    let ?I = "\<lambda>(r::result) (v::string list) (a::string list).
                tracksWorst r \<and> (\<forall>e \<in> set (analyzed r). scoreOf e \<le> 10)"
    have "?I r2 visited' analyzing2"
    proof (rule fold_followLink_invariant [OF followed(4), where I = ?I])
      show "?I (firstResult E opts ?p d content) (visited @ [?p]) (analyzing @ [?p])"
        using first by (simp add: tracksWorst_firstResult)
    next
      fix lp r v a assume "?I r v a"
      then show "?I (pushMaxCount lp r) v a" by simp
    next
      fix lp r v a rl v' a'
      assume I: "?I r v a" and call: "analyzeWithLinks E opts lp (d + 1) v a = Inr (rl, v', a')"
      have "optMaxDepth opts - (d + 1) < optMaxDepth opts - d" using followed(3) by simp
      from less.hyps [OF this call] I
      show "?I (mergeLinked r rl) v' a'" by (auto intro: tracksWorst_mergeLinked)
    qed
    with followed(5) show ?thesis by simp
  next
    case (atMaxDepth content)
    then show ?thesis using first by (simp add: tracksWorst_firstResult)
  next
    case (beyond content)
    then show ?thesis using first by (simp add: tracksWorst_firstResult)
  qed simp_all
qed

lemma average_computed:
  assumes "analyzeWithLinks E opts filePath d visited analyzing = Inr (r, visited', analyzing')"
    and "analyzed r \<noteq> []"
  shows "averageScore (summary r)
           = of_int (round (of_int (sum_list (map scoreOf (analyzed r)))
                            / of_nat (length (analyzed r)) * (10::rat))) / 10"
proof -
  have avg: "averageScore (summary (averageOf r2))
           = of_int (round (of_int (sum_list (map scoreOf (analyzed r2)))
                            / of_nat (length (analyzed r2)) * (10::rat))) / 10"
    if "analyzed r2 \<noteq> []" for r2
    using that by (simp add: averageOf_def Let_def scoreOf_def [abs_def])
  from assms show ?thesis
    by (cases rule: analyzeWithLinks_cases) (auto simp: avg simp del: firstResult_fields)
qed

text \<open>
  What the summary of a traversal with a non-empty list \<open>analyzed\<close> holds: the least
  overall score; the first file with that score, when the score is below 10; and the mean of
  the overall scores rounded to one decimal.
\<close>

lemma summary_of_traversal:
  assumes "linkedAnalysis E opts filePath = Inr r" and "analyzed r \<noteq> []"
  shows "worstScore (summary r) = Min (set (map scoreOf (analyzed r)))
       \<and> (worstScore (summary r) < 10 \<longrightarrow>
            worstFile (summary r)
              = map_option fullPath (find (\<lambda>e. scoreOf e = worstScore (summary r)) (analyzed r)))
       \<and> (worstScore (summary r) = 10 \<longrightarrow> worstFile (summary r) = None)
       \<and> averageScore (summary r)
           = of_int (round (of_int (sum_list (map scoreOf (analyzed r)))
                            / of_nat (length (analyzed r)) * (10::rat))) / 10"
proof -
  from assms(1) obtain visited' analyzing'
    where call: "analyzeWithLinks E opts filePath 0 [] [] = Inr (r, visited', analyzing')"
    using linkedAnalysis_Inr by blast
  from worst_tracked [OF call] have t: "tracksWorst r"
    and le: "\<forall>e \<in> set (analyzed r). scoreOf e \<le> 10" by simp_all
  let ?S = "set (map scoreOf (analyzed r))"
  from assms(2) have ne: "?S \<noteq> {}" by simp
  have "Min (insert 10 ?S) = min 10 (Min ?S)" using ne by simp
  moreover have "Min ?S \<le> 10"
  proof -
    from assms(2) obtain e where e: "e \<in> set (analyzed r)" by (cases "analyzed r") auto
    then have "Min ?S \<le> scoreOf e" by simp
    also have "\<dots> \<le> 10" using le e by simp
    finally show ?thesis .
  qed
  ultimately have "Min (insert 10 ?S) = Min ?S" by simp
  with t have "worstScore (summary r) = Min ?S" by (simp add: tracksWorst_def)
  moreover from t have "worstFile (summary r)
         = (if worstScore (summary r) < 10
            then map_option fullPath (find (\<lambda>e. scoreOf e = worstScore (summary r)) (analyzed r))
            else None)" by (simp add: tracksWorst_def)
  ultimately show ?thesis using average_computed [OF call assms(2)] by simp
qed


text \<open>
  Claim C9 at a traversal of one short document: the list \<open>analyzed\<close> holds one file with
  the overall score 10, which is the minimum, and \<open>summary.worstFile\<close> is null instead of
  the path of that file. The initial \<open>worstScore\<close> is 10 and is replaced only by a smaller
  score; when the minimum is below 10 the summary names the first file that attains it
  (\<open>summary_of_traversal\<close>).
\<close>

theorem worst_file_of_perfect_document:
  "map_sum id (\<lambda>r. (map (\<lambda>e. (fullPath e, overall (evaluation e))) (analyzed r), summary r))
     (linkedAnalysis (posixEnv singleFiles) (options 1 10) ''/r/a.md'')
   = Inr ([(''/r/a.md'', 10)],
          \<lparr>totalAnalyzed = 1, averageScore = 10, worstScore = 10, worstFile = None\<rparr>)"
  by (rule walk_single)


section \<open>The revision: link targets\<close>

lemma startsWith_append: "startsWith s p \<Longrightarrow> \<exists>rest. s = p @ rest"
  unfolding startsWith_def by (metis append_take_drop_id)

lemma rev_dropWhile_rev_keep:
  "\<not> P y \<Longrightarrow> rev (dropWhile P (rev (xs @ y # ys))) = xs @ y # rev (dropWhile P (rev ys))"
  by (simp add: dropWhile_append)

lemma hasScheme_shape:
  "hasScheme u \<longleftrightarrow>
     (\<exists>c pre ds. u = c # pre @ CHR '':'' # ds \<and> isAsciiLetter c \<and> (\<forall>x \<in> set pre. isSchemeChar x))"
proof
  assume h: "hasScheme u"
  then obtain c cs where u: "u = c # cs" and c: "isAsciiLetter c"
    by (cases u) (auto simp: hasScheme_def)
  from h u obtain ds where d: "dropWhile isSchemeChar cs = CHR '':'' # ds"
    by (auto simp: hasScheme_def split: list.splits)
  have "cs = takeWhile isSchemeChar cs @ CHR '':'' # ds"
    using d by (metis takeWhile_dropWhile_id)
  moreover have "\<forall>x \<in> set (takeWhile isSchemeChar cs). isSchemeChar x"
    by (auto dest: set_takeWhileD)
  ultimately show "\<exists>c pre ds. u = c # pre @ CHR '':'' # ds \<and> isAsciiLetter c
      \<and> (\<forall>x \<in> set pre. isSchemeChar x)"
    using u c by blast
next
  assume "\<exists>c pre ds. u = c # pre @ CHR '':'' # ds \<and> isAsciiLetter c \<and> (\<forall>x \<in> set pre. isSchemeChar x)"
  then obtain c pre ds where u: "u = c # pre @ CHR '':'' # ds" and c: "isAsciiLetter c"
    and pre: "\<forall>x \<in> set pre. isSchemeChar x" by blast
  have "\<not> isSchemeChar (CHR '':'')" by (simp add: isSchemeChar_def)
  then have "dropWhile isSchemeChar (pre @ CHR '':'' # ds) = CHR '':'' # ds"
    using pre by (simp add: dropWhile_append)
  then show "hasScheme u" using u c by (simp add: hasScheme_def)
qed

lemma letter_not_special:
  "isAsciiLetter c \<Longrightarrow> \<not> isWhitespace c \<and> c \<noteq> CHR ''<'' \<and> c \<noteq> CHR ''#''"
  by (auto simp: isAsciiLetter_def isWhitespace_def)

lemma hasScheme_trimmed:
  assumes "hasScheme rawUrl"
  shows "hasScheme (stripAngleBrackets (trim rawUrl))"
proof -
  from assms obtain c pre ds where u: "rawUrl = c # pre @ CHR '':'' # ds" and c: "isAsciiLetter c"
    and pre: "\<forall>x \<in> set pre. isSchemeChar x"
    unfolding hasScheme_shape by blast
  have nw: "\<not> isWhitespace (CHR '':'')" by (simp add: isWhitespace_def)
  define ds1 where "ds1 = rev (dropWhile isWhitespace (rev ds))"
  have "dropWhile isWhitespace rawUrl = rawUrl"
    using u c letter_not_special by simp
  then have "trim rawUrl = rev (dropWhile isWhitespace (rev ((c # pre) @ CHR '':'' # ds)))"
    using u by (simp add: trim_def)
  also have "\<dots> = (c # pre) @ CHR '':'' # ds1"
    unfolding ds1_def using nw by (rule rev_dropWhile_rev_keep)
  finally have t: "trim rawUrl = c # pre @ CHR '':'' # ds1" by simp
  have "\<not> startsWith (trim rawUrl) ''<''"
    using t c letter_not_special by (auto simp: startsWith_def)
  then have s: "stripAngleBrackets (trim rawUrl)
      = (if last (trim rawUrl) = CHR ''>'' then butlast (trim rawUrl) else trim rawUrl)"
    using t by (simp add: stripAngleBrackets_def)
  have "\<exists>ds2. stripAngleBrackets (trim rawUrl) = c # pre @ CHR '':'' # ds2"
  proof (cases "last (trim rawUrl) = CHR ''>''")
    case True
    then have "ds1 \<noteq> []" using t by auto
    then have "butlast (trim rawUrl) = c # pre @ CHR '':'' # butlast ds1"
      using t by (simp add: butlast_append)
    with True s show ?thesis by auto
  next
    case False
    with s t show ?thesis by auto
  qed
  then show ?thesis using c pre unfolding hasScheme_shape by blast
qed

lemma http_hasScheme:
  "startsWith rawUrl ''http://'' \<or> startsWith rawUrl ''https://'' \<Longrightarrow> hasScheme rawUrl"
  by (auto dest!: startsWith_append simp: hasScheme_def isAsciiLetter_def isSchemeChar_def)

lemma externalTarget_hasScheme: "externalTarget rawUrl \<longleftrightarrow> hasScheme rawUrl"
  using http_hasScheme by (auto simp: externalTarget_def)

lemma normalize_external:
  "externalTarget rawUrl \<Longrightarrow> normalizeMarkdownLinkTarget rawUrl = None"
  using hasScheme_trimmed [of rawUrl]
  by (simp add: externalTarget_hasScheme normalizeMarkdownLinkTarget_def Let_def)

lemma pushLink2_None:
  "normalizeMarkdownLinkTarget (snd g) = None \<Longrightarrow> pushLink2 E filePath rootDir noSymlinks g acc = acc"
  by (simp add: pushLink2_def Let_def)

lemma fold_pushLink2_filter:
  "fold (pushLink2 E filePath rootDir noSymlinks) ms acc
     = fold (pushLink2 E filePath rootDir noSymlinks)
         (filter (\<lambda>g. normalizeMarkdownLinkTarget (snd g) \<noteq> None) ms) acc"
  by (induction ms arbitrary: acc) (simp_all add: pushLink2_None)

lemma fold_pushLink2_filter_external:
  "fold (pushLink2 E filePath rootDir noSymlinks) ms acc
     = fold (pushLink2 E filePath rootDir noSymlinks)
         (filter (\<lambda>g. \<not> externalTarget (snd g)) ms) acc"
  by (induction ms arbitrary: acc) (simp_all add: pushLink2_None normalize_external)

text \<open>The targets of the candidates and of the blocked links come from normalized targets.\<close>

lemma fold_pushLink2_origin:
  assumes "fold (pushLink2 E filePath rootDir noSymlinks) ms acc = acc'"
  shows "set (valid acc') \<subseteq> set (valid acc) \<union>
           resolveFrom E (dirname E filePath) `
             {t. \<exists>g \<in> set ms. normalizeMarkdownLinkTarget (snd g) = Some t}
       \<and> url ` set (outsideRoot acc') \<subseteq> url ` set (outsideRoot acc) \<union>
           {t. \<exists>g \<in> set ms. normalizeMarkdownLinkTarget (snd g) = Some t}
       \<and> url ` set (symlinks acc') \<subseteq> url ` set (symlinks acc) \<union>
           {t. \<exists>g \<in> set ms. normalizeMarkdownLinkTarget (snd g) = Some t}"
  using assms
proof (induction ms arbitrary: acc)
  case Nil
  then show ?case by simp
next
  case (Cons g ms)
  let ?a = "pushLink2 E filePath rootDir noSymlinks g acc"
  let ?T = "\<lambda>ms. {t. \<exists>g \<in> set ms. normalizeMarkdownLinkTarget (snd g) = Some t}"
  let ?G = "{t. normalizeMarkdownLinkTarget (snd g) = Some t}"
  have T: "?T (g # ms) = ?G \<union> ?T ms" by auto
  from Cons.prems have "fold (pushLink2 E filePath rootDir noSymlinks) ms ?a = acc'" by simp
  note ih = Cons.IH [OF this]
  have step: "set (valid ?a) \<subseteq> set (valid acc) \<union> resolveFrom E (dirname E filePath) ` ?G"
    "url ` set (outsideRoot ?a) \<subseteq> url ` set (outsideRoot acc) \<union> ?G"
    "url ` set (symlinks ?a) \<subseteq> url ` set (symlinks acc) \<union> ?G"
    by (auto simp: pushLink2_def Let_def split: option.splits)
  show ?case
    unfolding T image_Un
  proof (intro conjI)
    show "set (valid acc') \<subseteq> set (valid acc) \<union>
           (resolveFrom E (dirname E filePath) ` ?G \<union> resolveFrom E (dirname E filePath) ` ?T ms)"
      using ih [THEN conjunct1] step(1) by blast
    show "url ` set (outsideRoot acc') \<subseteq> url ` set (outsideRoot acc) \<union> (?G \<union> ?T ms)"
      using ih [THEN conjunct2, THEN conjunct1] step(2) by blast
    show "url ` set (symlinks acc') \<subseteq> url ` set (symlinks acc) \<union> (?G \<union> ?T ms)"
      using ih [THEN conjunct2, THEN conjunct2] step(3) by blast
  qed
qed

lemma set_uniqStrings [simp]: "set (uniqStrings xs) = set xs"
proof -
  have "set (fold setAdd xs acc) = set acc \<union> set xs" for acc
    by (induction xs arbitrary: acc) (auto simp: setAdd_def)
  then show ?thesis by (simp add: uniqStrings_def)
qed

section \<open>The revision: metrics and the anchor links penalty\<close>

lemma fold_countLink2:
  "fold countLink2 ms m =
     m\<lparr>totalLinks := totalLinks m + length ms,
       anchorLinks := anchorLinks m + length (filter (\<lambda>g. isAnchorTarget (snd g)) ms),
       internalLinks := internalLinks m
         + length (filter (\<lambda>g. \<not> isAnchorTarget (snd g) \<and> normalizeMarkdownLinkTarget (snd g) \<noteq> None) ms),
       externalLinks := externalLinks m
         + length (filter (\<lambda>g. \<not> isAnchorTarget (snd g) \<and> normalizeMarkdownLinkTarget (snd g) = None) ms)\<rparr>"
  by (induction ms arbitrary: m)
     (auto simp: countLink2_def Let_def isAnchorTarget_def split: option.splits)

lemma links_analyzeLine2:
  "totalLinks (analyzeLine2 li m) = totalLinks m + length (lineTargets (fst li))"
  "anchorLinks (analyzeLine2 li m) =
     anchorLinks m + length (filter (\<lambda>g. isAnchorTarget (snd g)) (lineTargets (fst li)))"
  "internalLinks (analyzeLine2 li m) =
     internalLinks m + length (filter (\<lambda>g. \<not> isAnchorTarget (snd g)
         \<and> normalizeMarkdownLinkTarget (snd g) \<noteq> None) (lineTargets (fst li)))"
  "totalLines (analyzeLine2 li m) = totalLines m"
  by (simp_all add: analyzeLine2_def Let_def fold_countLink2 lineTargets_def split: option.split)

lemma links_fold_analyzeLine2:
  "totalLinks (fold analyzeLine2 ps m) =
     totalLinks m + length (concat (map (\<lambda>p. lineTargets (fst p)) ps))
   \<and> anchorLinks (fold analyzeLine2 ps m) =
     anchorLinks m
     + length (filter (\<lambda>g. isAnchorTarget (snd g)) (concat (map (\<lambda>p. lineTargets (fst p)) ps)))
   \<and> internalLinks (fold analyzeLine2 ps m) =
     internalLinks m
     + length (filter (\<lambda>g. \<not> isAnchorTarget (snd g) \<and> normalizeMarkdownLinkTarget (snd g) \<noteq> None)
                 (concat (map (\<lambda>p. lineTargets (fst p)) ps)))
   \<and> totalLines (fold analyzeLine2 ps m) = totalLines m"
  by (induction ps arbitrary: m) (simp_all add: links_analyzeLine2)


lemma links_analyzeText2:
  "totalLinks (analyzeText2 content) = length (documentTargets content)"
  "anchorLinks (analyzeText2 content) = anchorCount content"
  "internalLinks (analyzeText2 content) =
     length (filter (\<lambda>g. \<not> isAnchorTarget (snd g) \<and> normalizeMarkdownLinkTarget (snd g) \<noteq> None)
               (documentTargets content))"
  "totalLines (analyzeText2 content) = length (splitLines content)"
  by (simp_all add: analyzeText2_def Let_def links_fold_analyzeLine2 documentTargets_def
        map_fst_zip_upt anchorCount_def)

lemma half_le_ratio: "0 < t \<Longrightarrow> (1 / 2 \<le> (of_nat i :: rat) / of_nat t) = (t \<le> 2 * i)"
proof -
  assume t: "0 < t"
  have "(1 / 2 \<le> (of_nat i :: rat) / of_nat t) = ((of_nat t :: rat) \<le> 2 * of_nat i)"
    using t by (simp add: field_simps)
  also have "\<dots> = ((of_nat t :: rat) \<le> of_nat (2 * i))" by simp
  also have "\<dots> = (t \<le> 2 * i)" by (rule of_nat_le_iff)
  finally show ?thesis .
qed

lemma tierScore_spec:
  "0 < totalLinks m \<Longrightarrow> tierScore m = specTierScore (totalLines m) (internalLinks m) (totalLinks m)"
  by (simp add: tierScore_def specTierScore_def linkRatio2_def half_le_ratio)

lemma progressiveDisclosure_evaluateMetrics2:
  "progressiveDisclosure (evaluateMetrics2 m) = progressiveDisclosureOf2 m"
  by (simp add: evaluateMetrics2_def Let_def)

text \<open>
  Claim C4. For metrics that count at least one anchor link among their links, the
  progressive-disclosure score is the tier score for the lines, the internal links and all
  links, minus 2 and not below 0, whatever the tier (lines 794-798 of \<open>SKILL.md\<close>).
  The count \<open>anchorLinks\<close> of a document is the number of its references whose target
  begins with \<open>#\<close>, and these are among its links.
\<close>

theorem anchor_penalty:
  "(0 < anchorLinks m \<and> anchorLinks m \<le> totalLinks m \<longrightarrow>
      progressiveDisclosure (evaluateMetrics2 m)
        = max 0 (specTierScore (totalLines m) (internalLinks m) (totalLinks m) - 2))
   \<and> anchorLinks (analyzeText2 content) = anchorCount content
   \<and> anchorLinks (analyzeText2 content) \<le> totalLinks (analyzeText2 content)"
proof (intro conjI impI)
  assume a: "0 < anchorLinks m \<and> anchorLinks m \<le> totalLinks m"
  then have "0 < totalLinks m" by simp
  from tierScore_spec [OF this] a
  show "progressiveDisclosure (evaluateMetrics2 m)
        = max 0 (specTierScore (totalLines m) (internalLinks m) (totalLinks m) - 2)"
    by (simp add: progressiveDisclosure_evaluateMetrics2 progressiveDisclosureOf2_def Let_def)
next
  show "anchorLinks (analyzeText2 content) = anchorCount content"
    by (rule links_analyzeText2)
  show "anchorLinks (analyzeText2 content) \<le> totalLinks (analyzeText2 content)"
    by (simp add: links_analyzeText2 anchorCount_def)
qed


section \<open>The revision: invariants of the traversal\<close>

lemma analyzeWithLinks2_visited:
  "setHas visited (resolve E filePath) \<Longrightarrow>
   analyzeWithLinks2 E opts filePath d visited = Inr (emptyResult2, visited)"
  by (subst analyzeWithLinks2.simps) (simp add: Let_def)

lemma analyzeWithLinks2_full:
  "\<not> setHas visited (resolve E filePath) \<Longrightarrow> optMaxCount opts \<le> length visited \<Longrightarrow>
   analyzeWithLinks2 E opts filePath d visited
     = Inr (pushMaxCount2 (resolve E filePath) emptyResult2, visited)"
  by (subst analyzeWithLinks2.simps) (simp add: Let_def)

lemma analyzeWithLinks2_notFound:
  "\<not> setHas visited (resolve E filePath) \<Longrightarrow> length visited < optMaxCount opts \<Longrightarrow>
   \<not> existsSync E (resolve E filePath) \<Longrightarrow>
   analyzeWithLinks2 E opts filePath d visited
     = Inr (pushNotFound2 (resolve E filePath) emptyResult2, visited)"
  by (subst analyzeWithLinks2.simps) (simp add: Let_def)

lemma analyzeWithLinks2_threw:
  "passes E opts (resolve E filePath) visited \<Longrightarrow>
   sandboxCheck E opts filePath (resolve E filePath) = Inl e \<Longrightarrow>
   analyzeWithLinks2 E opts filePath d visited = Inl e"
  by (subst analyzeWithLinks2.simps) (simp add: Let_def passes_def)

lemma analyzeWithLinks2_blocked:
  "passes E opts (resolve E filePath) visited \<Longrightarrow>
   sandboxCheck E opts filePath (resolve E filePath) = Inr (Some blocked) \<Longrightarrow>
   analyzeWithLinks2 E opts filePath d visited = Inr (blocked, visited)"
  by (subst analyzeWithLinks2.simps) (simp add: Let_def passes_def)

lemma analyzeWithLinks2_unreadable:
  "passes E opts (resolve E filePath) visited \<Longrightarrow>
   sandboxCheck E opts filePath (resolve E filePath) = Inr None \<Longrightarrow>
   readFileSync E (resolve E filePath) = None \<Longrightarrow>
   analyzeWithLinks2 E opts filePath d visited = Inl (ReadThrew (resolve E filePath))"
  by (subst analyzeWithLinks2.simps) (simp add: Let_def passes_def)

lemma analyzeWithLinks2_admitted:
  "passes E opts (resolve E filePath) visited \<Longrightarrow>
   sandboxCheck E opts filePath (resolve E filePath) = Inr None \<Longrightarrow>
   readFileSync E (resolve E filePath) = Some content \<Longrightarrow>
   analyzeWithLinks2 E opts filePath d visited
     = finish E d
         (if d < optMaxDepth opts then
            fold (followLink2 (optMaxCount opts)
                    (\<lambda>linkedPath vis. analyzeWithLinks2 E opts linkedPath (d + 1) vis))
              (valid (linksOf E opts (resolve E filePath) content))
              (Inr (pushBlocked (linksOf E opts (resolve E filePath) content)
                      (firstResult2 E opts (resolve E filePath) d content),
                    visited @ [resolve E filePath]))
          else if d = optMaxDepth opts then
            Inr (fold (recordMaxDepth2 E (visited @ [resolve E filePath]))
                   (valid (linksOf E opts (resolve E filePath) content))
                   (pushBlocked (linksOf E opts (resolve E filePath) content)
                      (firstResult2 E opts (resolve E filePath) d content)),
                 visited @ [resolve E filePath])
          else Inr (firstResult2 E opts (resolve E filePath) d content,
                    visited @ [resolve E filePath]))"
  by (subst analyzeWithLinks2.simps)
     (simp add: Let_def passes_def analyzeDocument2_def firstResult2_def finish_def setAdd_def
        setHas_def linksOf_def split del: if_split cong: if_cong)

lemma emptyResult2_fields [simp]:
  "analyzed2 emptyResult2 = []" "notFound2 emptyResult2 = []"
  "sk_maxDepth2 (skipped2 emptyResult2) = []" "sk_maxCount2 (skipped2 emptyResult2) = []"
  "sk_outsideRoot (skipped2 emptyResult2) = []" "sk_symlinks (skipped2 emptyResult2) = []"
  by (simp_all add: emptyResult2_def)

lemma push2_fields [simp]:
  "analyzed2 (pushMaxDepth2 p r) = analyzed2 r" "notFound2 (pushMaxDepth2 p r) = notFound2 r"
  "sk_maxDepth2 (skipped2 (pushMaxDepth2 p r)) = sk_maxDepth2 (skipped2 r) @ [p]"
  "sk_maxCount2 (skipped2 (pushMaxDepth2 p r)) = sk_maxCount2 (skipped2 r)"
  "sk_outsideRoot (skipped2 (pushMaxDepth2 p r)) = sk_outsideRoot (skipped2 r)"
  "sk_symlinks (skipped2 (pushMaxDepth2 p r)) = sk_symlinks (skipped2 r)"
  "analyzed2 (pushMaxCount2 p r) = analyzed2 r" "notFound2 (pushMaxCount2 p r) = notFound2 r"
  "sk_maxDepth2 (skipped2 (pushMaxCount2 p r)) = sk_maxDepth2 (skipped2 r)"
  "sk_maxCount2 (skipped2 (pushMaxCount2 p r)) = sk_maxCount2 (skipped2 r) @ [p]"
  "sk_outsideRoot (skipped2 (pushMaxCount2 p r)) = sk_outsideRoot (skipped2 r)"
  "sk_symlinks (skipped2 (pushMaxCount2 p r)) = sk_symlinks (skipped2 r)"
  "analyzed2 (pushNotFound2 p r) = analyzed2 r" "notFound2 (pushNotFound2 p r) = notFound2 r @ [p]"
  "skipped2 (pushNotFound2 p r) = skipped2 r"
  "analyzed2 (pushOutsideRoot bs r) = analyzed2 r" "notFound2 (pushOutsideRoot bs r) = notFound2 r"
  "sk_maxDepth2 (skipped2 (pushOutsideRoot bs r)) = sk_maxDepth2 (skipped2 r)"
  "sk_maxCount2 (skipped2 (pushOutsideRoot bs r)) = sk_maxCount2 (skipped2 r)"
  "sk_outsideRoot (skipped2 (pushOutsideRoot bs r)) = sk_outsideRoot (skipped2 r) @ bs"
  "sk_symlinks (skipped2 (pushOutsideRoot bs r)) = sk_symlinks (skipped2 r)"
  "analyzed2 (pushSymlinks bs r) = analyzed2 r" "notFound2 (pushSymlinks bs r) = notFound2 r"
  "sk_maxDepth2 (skipped2 (pushSymlinks bs r)) = sk_maxDepth2 (skipped2 r)"
  "sk_maxCount2 (skipped2 (pushSymlinks bs r)) = sk_maxCount2 (skipped2 r)"
  "sk_outsideRoot (skipped2 (pushSymlinks bs r)) = sk_outsideRoot (skipped2 r)"
  "sk_symlinks (skipped2 (pushSymlinks bs r)) = sk_symlinks (skipped2 r) @ bs"
  by (simp_all add: pushMaxDepth2_def pushMaxCount2_def pushNotFound2_def pushOutsideRoot_def
        pushSymlinks_def)

lemma pushBlocked_fields [simp]:
  "analyzed2 (pushBlocked l r) = analyzed2 r" "notFound2 (pushBlocked l r) = notFound2 r"
  "sk_maxDepth2 (skipped2 (pushBlocked l r)) = sk_maxDepth2 (skipped2 r)"
  "sk_maxCount2 (skipped2 (pushBlocked l r)) = sk_maxCount2 (skipped2 r)"
  "sk_outsideRoot (skipped2 (pushBlocked l r)) = sk_outsideRoot (skipped2 r) @ outsideRoot l"
  "sk_symlinks (skipped2 (pushBlocked l r)) = sk_symlinks (skipped2 r) @ symlinks l"
  by (simp_all add: pushBlocked_def)

lemma averageOf2_fields [simp]:
  "analyzed2 (averageOf2 r) = analyzed2 r" "notFound2 (averageOf2 r) = notFound2 r"
  "skipped2 (averageOf2 r) = skipped2 r"
  by (simp_all add: averageOf2_def Let_def)

lemma recordAnalyzed2_fields [simp]:
  "analyzed2 (recordAnalyzed2 fr r) = analyzed2 r @ [fr]"
  "notFound2 (recordAnalyzed2 fr r) = notFound2 r"
  "skipped2 (recordAnalyzed2 fr r) = skipped2 r"
  by (simp_all add: recordAnalyzed2_def Let_def)

lemma mergeLinked2_fields [simp]:
  "analyzed2 (mergeLinked2 r l) = analyzed2 r @ analyzed2 l"
  "notFound2 (mergeLinked2 r l) = notFound2 r @ notFound2 l"
  "sk_maxDepth2 (skipped2 (mergeLinked2 r l)) = sk_maxDepth2 (skipped2 r) @ sk_maxDepth2 (skipped2 l)"
  "sk_maxCount2 (skipped2 (mergeLinked2 r l)) = sk_maxCount2 (skipped2 r) @ sk_maxCount2 (skipped2 l)"
  "sk_outsideRoot (skipped2 (mergeLinked2 r l))
     = sk_outsideRoot (skipped2 r) @ sk_outsideRoot (skipped2 l)"
  "sk_symlinks (skipped2 (mergeLinked2 r l)) = sk_symlinks (skipped2 r) @ sk_symlinks (skipped2 l)"
  by (simp_all add: mergeLinked2_def Let_def)

lemma mergeEntry_fields [simp]:
  "analyzed2 (mergeEntry r l) = analyzed2 r @ analyzed2 l"
  "notFound2 (mergeEntry r l) = notFound2 r @ notFound2 l"
  "sk_maxDepth2 (skipped2 (mergeEntry r l)) = sk_maxDepth2 (skipped2 r) @ sk_maxDepth2 (skipped2 l)"
  "sk_maxCount2 (skipped2 (mergeEntry r l)) = sk_maxCount2 (skipped2 r) @ sk_maxCount2 (skipped2 l)"
  "sk_outsideRoot (skipped2 (mergeEntry r l))
     = sk_outsideRoot (skipped2 r) @ sk_outsideRoot (skipped2 l)"
  "sk_symlinks (skipped2 (mergeEntry r l)) = sk_symlinks (skipped2 r) @ sk_symlinks (skipped2 l)"
  by (simp_all add: mergeEntry_def Let_def)

lemma fileResultOf2_fields [simp]:
  "fullPath2 (fileResultOf2 E opts p d m ev) = p" "depth2 (fileResultOf2 E opts p d m ev) = d"
  "evaluation2 (fileResultOf2 E opts p d m ev) = ev"
  by (simp_all add: fileResultOf2_def)

lemma firstResult2_fields [simp]:
  "analyzed2 (firstResult2 E opts p d content)
     = [fileResultOf2 E opts p d (analyzeText2 content) (evaluateMetrics2 (analyzeText2 content))]"
  "notFound2 (firstResult2 E opts p d content) = []"
  "sk_maxDepth2 (skipped2 (firstResult2 E opts p d content)) = []"
  "sk_maxCount2 (skipped2 (firstResult2 E opts p d content)) = []"
  "sk_outsideRoot (skipped2 (firstResult2 E opts p d content)) = []"
  "sk_symlinks (skipped2 (firstResult2 E opts p d content)) = []"
  by (simp_all add: firstResult2_def)

lemma fold_recordMaxDepth2_fields [simp]:
  "analyzed2 (fold (recordMaxDepth2 E vis) links r) = analyzed2 r"
  "notFound2 (fold (recordMaxDepth2 E vis) links r) = notFound2 r"
  "sk_maxCount2 (skipped2 (fold (recordMaxDepth2 E vis) links r)) = sk_maxCount2 (skipped2 r)"
  "sk_outsideRoot (skipped2 (fold (recordMaxDepth2 E vis) links r)) = sk_outsideRoot (skipped2 r)"
  "sk_symlinks (skipped2 (fold (recordMaxDepth2 E vis) links r)) = sk_symlinks (skipped2 r)"
  "sk_maxDepth2 (skipped2 (fold (recordMaxDepth2 E vis) links r))
     = sk_maxDepth2 (skipped2 r) @ filter (\<lambda>linkedPath. \<not> setHas vis (resolve E linkedPath)) links"
  by (induction links arbitrary: r) (simp_all add: recordMaxDepth2_def)

lemma dedupeSkipped_fields [simp]:
  "analyzed2 (dedupeSkipped E r) = analyzed2 r" "notFound2 (dedupeSkipped E r) = notFound2 r"
  "sk_outsideRoot (skipped2 (dedupeSkipped E r)) = sk_outsideRoot (skipped2 r)"
  "sk_symlinks (skipped2 (dedupeSkipped E r)) = sk_symlinks (skipped2 r)"
  "sk_maxDepth2 (skipped2 (dedupeSkipped E r))
     = filter (\<lambda>p. resolve E p \<notin> fullPath2 ` set (analyzed2 r)) (sk_maxDepth2 (skipped2 r))"
  "sk_maxCount2 (skipped2 (dedupeSkipped E r))
     = filter (\<lambda>p. resolve E p \<notin> fullPath2 ` set (analyzed2 r)) (sk_maxCount2 (skipped2 r))"
  by (simp_all add: dedupeSkipped_def Let_def setHas_def)

lemma crossEntryDedupe_fields [simp]:
  "analyzed2 (crossEntryDedupe E r) = analyzed2 r"
  "notFound2 (crossEntryDedupe E r) = uniqStrings (notFound2 r)"
  "sk_outsideRoot (skipped2 (crossEntryDedupe E r)) = sk_outsideRoot (skipped2 r)"
  "sk_symlinks (skipped2 (crossEntryDedupe E r)) = sk_symlinks (skipped2 r)"
  "sk_maxDepth2 (skipped2 (crossEntryDedupe E r))
     = filter (\<lambda>p. resolve E p \<notin> fullPath2 ` set (analyzed2 r))
         (uniqStrings (sk_maxDepth2 (skipped2 r)))"
  "sk_maxCount2 (skipped2 (crossEntryDedupe E r))
     = filter (\<lambda>p. resolve E p \<notin> fullPath2 ` set (analyzed2 r))
         (uniqStrings (sk_maxCount2 (skipped2 r)))"
  by (simp_all add: crossEntryDedupe_def Let_def setHas_def)

lemma sandboxCheck_cases:
  obtains (threw) e where "sandboxCheck E opts filePath p = Inl e"
  | (outside) "sandboxCheck E opts filePath p
        = Inr (Some (pushOutsideRoot [\<lparr>url = filePath, resolvedPath = p\<rparr>] emptyResult2))"
  | (symlink) "sandboxCheck E opts filePath p
        = Inr (Some (pushSymlinks [\<lparr>url = filePath, resolvedPath = p\<rparr>] emptyResult2))"
  | (pass) "sandboxCheck E opts filePath p = Inr None"
proof -
  have "(\<exists>e. sandboxCheck E opts filePath p = Inl e)
      \<or> sandboxCheck E opts filePath p
        = Inr (Some (pushOutsideRoot [\<lparr>url = filePath, resolvedPath = p\<rparr>] emptyResult2))
      \<or> sandboxCheck E opts filePath p
        = Inr (Some (pushSymlinks [\<lparr>url = filePath, resolvedPath = p\<rparr>] emptyResult2))
      \<or> sandboxCheck E opts filePath p = Inr None"
    by (simp add: sandboxCheck_def split: option.split)
  then show thesis using threw outside symlink pass by blast
qed

lemma sandboxCheck_pass_any:
  "sandboxCheck E opts filePath p = Inr None \<Longrightarrow> sandboxCheck E opts filePath' p = Inr None"
  by (auto simp: sandboxCheck_def split: option.splits if_splits)

lemma analyzeWithLinks2_cases
  [consumes 1, case_names visited full notFound blocked followed atMaxDepth beyond]:
  assumes "analyzeWithLinks2 E opts filePath d visited = Inr (r, visited')"
  obtains
    (visited) "setHas visited (resolve E filePath)" "r = emptyResult2" "visited' = visited"
  | (full) "\<not> setHas visited (resolve E filePath)" "optMaxCount opts \<le> length visited"
      "r = pushMaxCount2 (resolve E filePath) emptyResult2" "visited' = visited"
  | (notFound) "\<not> setHas visited (resolve E filePath)" "\<not> existsSync E (resolve E filePath)"
      "r = pushNotFound2 (resolve E filePath) emptyResult2" "visited' = visited"
  | (blocked) "passes E opts (resolve E filePath) visited"
      "r = pushOutsideRoot [\<lparr>url = filePath, resolvedPath = resolve E filePath\<rparr>] emptyResult2
       \<or> r = pushSymlinks [\<lparr>url = filePath, resolvedPath = resolve E filePath\<rparr>] emptyResult2"
      "visited' = visited"
  | (followed) content r2 where
      "passes E opts (resolve E filePath) visited"
      "sandboxCheck E opts filePath (resolve E filePath) = Inr None"
      "readFileSync E (resolve E filePath) = Some content"
      "d < optMaxDepth opts"
      "fold (followLink2 (optMaxCount opts)
               (\<lambda>linkedPath vis. analyzeWithLinks2 E opts linkedPath (d + 1) vis))
         (valid (linksOf E opts (resolve E filePath) content))
         (Inr (pushBlocked (linksOf E opts (resolve E filePath) content)
                 (firstResult2 E opts (resolve E filePath) d content),
               visited @ [resolve E filePath]))
       = Inr (r2, visited')"
      "r = (if d = 0 then dedupeSkipped E (averageOf2 r2) else averageOf2 r2)"
  | (atMaxDepth) content where
      "passes E opts (resolve E filePath) visited"
      "sandboxCheck E opts filePath (resolve E filePath) = Inr None"
      "readFileSync E (resolve E filePath) = Some content"
      "d = optMaxDepth opts"
      "r = (let r2 = averageOf2 (fold (recordMaxDepth2 E (visited @ [resolve E filePath]))
                        (valid (linksOf E opts (resolve E filePath) content))
                        (pushBlocked (linksOf E opts (resolve E filePath) content)
                           (firstResult2 E opts (resolve E filePath) d content)))
            in if d = 0 then dedupeSkipped E r2 else r2)"
      "visited' = visited @ [resolve E filePath]"
  | (beyond) content where
      "passes E opts (resolve E filePath) visited"
      "sandboxCheck E opts filePath (resolve E filePath) = Inr None"
      "readFileSync E (resolve E filePath) = Some content"
      "optMaxDepth opts < d"
      "r = averageOf2 (firstResult2 E opts (resolve E filePath) d content)"
      "visited' = visited @ [resolve E filePath]"
proof -
  let ?p = "resolve E filePath"
  consider (a) "setHas visited ?p"
    | (b) "\<not> setHas visited ?p" "optMaxCount opts \<le> length visited"
    | (c) "\<not> setHas visited ?p" "length visited < optMaxCount opts" "\<not> existsSync E ?p"
    | (d) "passes E opts ?p visited"
    unfolding passes_def using not_le_imp_less by blast
  then show thesis
  proof cases
    case a
    from assms have "r = emptyResult2 \<and> visited' = visited"
      unfolding analyzeWithLinks2_visited [OF a] by simp
    then show ?thesis using visited a by blast
  next
    case b
    from assms have "r = pushMaxCount2 ?p emptyResult2 \<and> visited' = visited"
      unfolding analyzeWithLinks2_full [OF b] by simp
    then show ?thesis using full b by blast
  next
    case c
    from assms have "r = pushNotFound2 ?p emptyResult2 \<and> visited' = visited"
      unfolding analyzeWithLinks2_notFound [OF c] by simp
    then show ?thesis using notFound c by blast
  next
    case d
    show ?thesis
    proof (cases rule: sandboxCheck_cases [of E opts filePath ?p])
      case (threw e)
      from assms show ?thesis
        unfolding analyzeWithLinks2_threw [OF d threw] by simp
    next
      case outside
      from assms have
        "r = pushOutsideRoot [\<lparr>url = filePath, resolvedPath = ?p\<rparr>] emptyResult2 \<and> visited' = visited"
        unfolding analyzeWithLinks2_blocked [OF d outside] by simp
      then show ?thesis using blocked d by blast
    next
      case symlink
      from assms have
        "r = pushSymlinks [\<lparr>url = filePath, resolvedPath = ?p\<rparr>] emptyResult2 \<and> visited' = visited"
        unfolding analyzeWithLinks2_blocked [OF d symlink] by simp
      then show ?thesis using blocked d by blast
    next
      case pass
      show ?thesis
      proof (cases "readFileSync E ?p")
        case None
        from assms show ?thesis
          unfolding analyzeWithLinks2_unreadable [OF d pass None] by simp
      next
        case (Some content)
        note eq = assms [unfolded analyzeWithLinks2_admitted [OF d pass Some]]
        consider (lt) "d < optMaxDepth opts" | (eq) "d = optMaxDepth opts"
          | (gt) "optMaxDepth opts < d"
          by linarith
        then show ?thesis
        proof cases
          case lt
          let ?f = "fold (followLink2 (optMaxCount opts)
               (\<lambda>linkedPath vis. analyzeWithLinks2 E opts linkedPath (d + 1) vis))
             (valid (linksOf E opts ?p content))
             (Inr (pushBlocked (linksOf E opts ?p content) (firstResult2 E opts ?p d content),
                   visited @ [?p]))"
          from eq lt have l: "finish E d ?f = Inr (r, visited')" by simp
          then obtain r2 where "?f = Inr (r2, visited')"
            "r = (if d = 0 then dedupeSkipped E (averageOf2 r2) else averageOf2 r2)"
            by (cases ?f) (auto simp: finish_def)
          then show ?thesis using followed [OF d pass Some lt] by blast
        next
          case eq
          with \<open>finish _ _ _ = _\<close> have
            "r = (let r2 = averageOf2 (fold (recordMaxDepth2 E (visited @ [?p]))
                        (valid (linksOf E opts ?p content))
                        (pushBlocked (linksOf E opts ?p content)
                           (firstResult2 E opts ?p d content)))
                  in if d = 0 then dedupeSkipped E r2 else r2)
             \<and> visited' = visited @ [?p]"
            by (auto simp: finish_def Let_def)
          then show ?thesis using atMaxDepth [OF d pass Some eq] by blast
        next
          case gt
          with eq have "r = averageOf2 (firstResult2 E opts ?p d content)
              \<and> visited' = visited @ [?p]"
            by (auto simp: finish_def)
          then show ?thesis using beyond [OF d pass Some gt] by blast
        qed
      qed
    qed
  qed
qed

lemma fold_followLink2_Inl: "fold (followLink2 n recurse) links (Inl e) = Inl e"
  by (induction links) (simp_all add: followLink2_def)

lemma fold_followLink2_invariant:
  assumes "fold (followLink2 n recurse) links (Inr (r0, vis0)) = Inr (r, vis)"
    and "I r0 vis0"
    and skip: "\<And>lp r vis. lp \<in> set links \<Longrightarrow> I r vis \<Longrightarrow> n \<le> length vis
                 \<Longrightarrow> I (pushMaxCount2 lp r) vis"
    and merge: "\<And>lp r vis rl vis'. lp \<in> set links \<Longrightarrow> I r vis \<Longrightarrow> length vis < n
                 \<Longrightarrow> recurse lp vis = Inr (rl, vis') \<Longrightarrow> I (mergeLinked2 r rl) vis'"
  shows "I r vis"
  using assms
proof (induction links arbitrary: r0 vis0)
  case Nil
  then show ?case by simp
next
  case (Cons lp links)
  show ?case
  proof (cases "n \<le> length vis0")
    case True
    then have "followLink2 n recurse lp (Inr (r0, vis0)) = Inr (pushMaxCount2 lp r0, vis0)"
      by (simp add: followLink2_def)
    with Cons.prems(1) have "fold (followLink2 n recurse) links (Inr (pushMaxCount2 lp r0, vis0)) = Inr (r, vis)"
      by simp
    moreover have "I (pushMaxCount2 lp r0) vis0"
      by (rule Cons.prems(3) [of lp]) (use Cons.prems(2) True in simp_all)
    ultimately show ?thesis
      using Cons.IH Cons.prems(3,4) by (metis list.set_intros(2))
  next
    case False
    show ?thesis
    proof (cases "recurse lp vis0")
      case (Inl e)
      with False have "followLink2 n recurse lp (Inr (r0, vis0)) = Inl e"
        by (simp add: followLink2_def)
      with Cons.prems(1) show ?thesis by (simp add: fold_followLink2_Inl)
    next
      case (Inr x)
      obtain rl vis' where x: "x = (rl, vis')" by (cases x)
      with Inr False have "followLink2 n recurse lp (Inr (r0, vis0)) = Inr (mergeLinked2 r0 rl, vis')"
        by (simp add: followLink2_def)
      with Cons.prems(1) have "fold (followLink2 n recurse) links (Inr (mergeLinked2 r0 rl, vis')) = Inr (r, vis)"
        by simp
      moreover have "I (mergeLinked2 r0 rl) vis'"
        by (rule Cons.prems(4) [of lp]) (use Cons.prems(2) False Inr x in simp_all)
      ultimately show ?thesis
        using Cons.IH Cons.prems(3,4) by (metis list.set_intros(2))
    qed
  qed
qed

lemma valid_linksOf_resolved:
  "lp \<in> set (valid (linksOf E opts p content)) \<Longrightarrow> resolvedByPath E lp"
proof -
  assume lp: "lp \<in> set (valid (linksOf E opts p content))"
  let ?acc = "fold (pushLink2 E p (optRootDir opts) (optNoSymlinks opts)) (linkMatches content)
                \<lparr>valid = [], outsideRoot = [], symlinks = []\<rparr>"
  have "set (valid ?acc) \<subseteq> set (valid \<lparr>valid = [], outsideRoot = [], symlinks = []\<rparr>) \<union>
           resolveFrom E (dirname E p) `
             {t. \<exists>g \<in> set (linkMatches content). normalizeMarkdownLinkTarget (snd g) = Some t}"
    using fold_pushLink2_origin [OF refl, THEN conjunct1] .
  moreover have "lp \<in> set (valid ?acc)"
    using lp by (simp add: linksOf_def extractInternalLinks2_def extractFromMatches_def Let_def)
  ultimately show ?thesis by (auto simp: resolvedByPath_def)
qed

lemma sound_simps [simp]:
  "sound E opts emptyResult2"
  "sound E opts (pushMaxCount2 p r) \<longleftrightarrow> sound E opts r \<and> resolvedByPath E p"
  "sound E opts (pushMaxDepth2 p r) \<longleftrightarrow> sound E opts r \<and> resolvedByPath E p"
  "sound E opts (pushNotFound2 p r) \<longleftrightarrow> sound E opts r \<and> \<not> existsSync E p"
  "sound E opts (pushOutsideRoot bs r) \<longleftrightarrow> sound E opts r"
  "sound E opts (pushSymlinks bs r) \<longleftrightarrow> sound E opts r"
  "sound E opts (pushBlocked lks r) \<longleftrightarrow> sound E opts r"
  "sound E opts (averageOf2 r) \<longleftrightarrow> sound E opts r"
  "sound E opts (mergeLinked2 r l) \<longleftrightarrow> sound E opts r \<and> sound E opts l"
  "sound E opts (mergeEntry r l) \<longleftrightarrow> sound E opts r \<and> sound E opts l"
  by (auto simp: sound_def)

lemma sound_dedupeSkipped: "sound E opts r \<Longrightarrow> sound E opts (dedupeSkipped E r)"
  by (auto simp: sound_def)

lemma sound_crossEntryDedupe: "sound E opts r \<Longrightarrow> sound E opts (crossEntryDedupe E r)"
  by (auto simp: sound_def)

lemma sound_firstResult2:
  "existsSync E p \<Longrightarrow> resolvedByPath E p \<Longrightarrow> sandboxCheck E opts p p = Inr None \<Longrightarrow>
   sound E opts (firstResult2 E opts p d content)"
  by (simp add: sound_def)

lemma sound_fold_recordMaxDepth2:
  "sound E opts r \<Longrightarrow> \<forall>lp \<in> set links. resolvedByPath E lp \<Longrightarrow>
   sound E opts (fold (recordMaxDepth2 E vis) links r)"
  by (auto simp: sound_def)

lemma traversal_invariant:
  "analyzeWithLinks2 E opts filePath d visited = Inr (r, visited') \<Longrightarrow>
   sound E opts r \<and> visited' = visited @ map fullPath2 (analyzed2 r)
   \<and> (distinct visited \<longrightarrow> distinct visited')"
proof (induction "optMaxDepth opts - d" arbitrary: filePath d visited r visited' rule: less_induct)
  case less
  let ?p = "resolve E filePath"
  have rp: "resolvedByPath E ?p" by (auto simp: resolvedByPath_def)
  from less.prems show ?case
  proof (cases rule: analyzeWithLinks2_cases)
    case (followed content r2)
    let ?I = "\<lambda>(r::result2) (v::string list).
                sound E opts r \<and> v = visited @ map fullPath2 (analyzed2 r) \<and> distinct v"
    have pass: "sandboxCheck E opts ?p ?p = Inr None"
      using followed(2) by (rule sandboxCheck_pass_any)
    have first: "sound E opts (firstResult2 E opts ?p d content)"
      using followed(1) rp pass by (intro sound_firstResult2) (simp_all add: passes_def)
    have inv: "distinct visited \<Longrightarrow> ?I r2 visited'"
    proof (rule fold_followLink2_invariant [OF followed(5), where I = ?I])
      assume "distinct visited"
      then show "?I (pushBlocked (linksOf E opts ?p content) (firstResult2 E opts ?p d content))
                   (visited @ [?p])"
        using first followed(1) by (simp add: passes_def setHas_def)
    next
      fix lp r v
      assume lp: "lp \<in> set (valid (linksOf E opts ?p content))" and "?I r v"
      then have "sound E opts r" "v = visited @ map fullPath2 (analyzed2 r)" "distinct v"
        by blast+
      then show "?I (pushMaxCount2 lp r) v"
        by (simp add: valid_linksOf_resolved [OF lp])
    next
      fix lp r v rl v'
      assume I: "?I r v" and call: "analyzeWithLinks2 E opts lp (d + 1) v = Inr (rl, v')"
      from I have s: "sound E opts r" and veq: "v = visited @ map fullPath2 (analyzed2 r)"
        and dv: "distinct v" by blast+
      have "optMaxDepth opts - (d + 1) < optMaxDepth opts - d" using followed(4) by simp
      from less.hyps [OF this call]
      have sl: "sound E opts rl" and v'eq: "v' = v @ map fullPath2 (analyzed2 rl)"
        and dd: "distinct v \<longrightarrow> distinct v'" by blast+
      show "?I (mergeLinked2 r rl) v'"
      proof (intro conjI)
        show "sound E opts (mergeLinked2 r rl)" using s sl by simp
        show "v' = visited @ map fullPath2 (analyzed2 (mergeLinked2 r rl))"
          using veq v'eq by simp
        show "distinct v'" using dd dv by blast
      qed
    qed
    let ?J = "\<lambda>(r::result2) (v::string list).
                sound E opts r \<and> v = visited @ map fullPath2 (analyzed2 r)"
    have "?J r2 visited'"
    proof (rule fold_followLink2_invariant [OF followed(5), where I = ?J])
      show "?J (pushBlocked (linksOf E opts ?p content) (firstResult2 E opts ?p d content))
                   (visited @ [?p])"
        using first by simp
    next
      fix lp r v
      assume lp: "lp \<in> set (valid (linksOf E opts ?p content))" and "?J r v"
      then have "sound E opts r" "v = visited @ map fullPath2 (analyzed2 r)"
        by blast+
      then show "?J (pushMaxCount2 lp r) v"
        by (simp add: valid_linksOf_resolved [OF lp])
    next
      fix lp r v rl v'
      assume I: "?J r v" and call: "analyzeWithLinks2 E opts lp (d + 1) v = Inr (rl, v')"
      from I have s: "sound E opts r" and veq: "v = visited @ map fullPath2 (analyzed2 r)"
        by blast+
      have "optMaxDepth opts - (d + 1) < optMaxDepth opts - d" using followed(4) by simp
      from less.hyps [OF this call]
      have sl: "sound E opts rl" and v'eq: "v' = v @ map fullPath2 (analyzed2 rl)"
        by blast+
      show "?J (mergeLinked2 r rl) v'"
      proof (intro conjI)
        show "sound E opts (mergeLinked2 r rl)" using s sl by simp
        show "v' = visited @ map fullPath2 (analyzed2 (mergeLinked2 r rl))"
          using veq v'eq by simp
      qed
    qed
    with inv followed(6) show ?thesis by (auto intro: sound_dedupeSkipped)
  next
    case (atMaxDepth content)
    have pass: "sandboxCheck E opts ?p ?p = Inr None"
      using atMaxDepth(2) by (rule sandboxCheck_pass_any)
    have first: "sound E opts (firstResult2 E opts ?p d content)"
      using atMaxDepth(1) rp pass by (intro sound_firstResult2) (simp_all add: passes_def)
    have "sound E opts (fold (recordMaxDepth2 E (visited @ [?p]))
                        (valid (linksOf E opts ?p content))
                        (pushBlocked (linksOf E opts ?p content)
                           (firstResult2 E opts ?p d content)))"
      using first valid_linksOf_resolved by (intro sound_fold_recordMaxDepth2) auto
    with atMaxDepth show ?thesis
      by (auto simp: Let_def passes_def setHas_def intro: sound_dedupeSkipped)
  next
    case (beyond content)
    have pass: "sandboxCheck E opts ?p ?p = Inr None"
      using beyond(2) by (rule sandboxCheck_pass_any)
    have first: "sound E opts (firstResult2 E opts ?p d content)"
      using beyond(1) rp pass by (intro sound_firstResult2) (simp_all add: passes_def)
    with beyond show ?thesis by (auto simp: passes_def setHas_def)
  qed (use rp in \<open>auto simp: passes_def\<close>)
qed

lemma fold_analyzeEntry_Inl: "fold (analyzeEntry E opts) fps (Inl e) = Inl e"
  by (induction fps) (simp_all add: analyzeEntry_def)

lemma entries_invariant:
  "fold (analyzeEntry E opts) filePaths (Inr (all0, v0)) = Inr (allResults, v) \<Longrightarrow>
   sound E opts all0 \<Longrightarrow> v0 = map fullPath2 (analyzed2 all0) \<Longrightarrow> distinct v0 \<Longrightarrow>
   sound E opts allResults \<and> v = map fullPath2 (analyzed2 allResults) \<and> distinct v"
proof (induction filePaths arbitrary: all0 v0)
  case Nil
  then show ?case by auto
next
  case (Cons fp fps)
  show ?case
  proof (cases "analyzeWithLinks2 E opts fp 0 v0")
    case (Inl e)
    then have "analyzeEntry E opts fp (Inr (all0, v0)) = Inl e" by (simp add: analyzeEntry_def)
    with Cons.prems(1) show ?thesis by (simp add: fold_analyzeEntry_Inl)
  next
    case (Inr x)
    obtain la v1 where x: "x = (la, v1)" by (cases x)
    with Inr have step: "analyzeEntry E opts fp (Inr (all0, v0)) = Inr (mergeEntry all0 la, v1)"
      by (simp add: analyzeEntry_def)
    from Inr x have call: "analyzeWithLinks2 E opts fp 0 v0 = Inr (la, v1)" by simp
    note t = traversal_invariant [OF call]
    from Cons.prems(1) step
    have "fold (analyzeEntry E opts) fps (Inr (mergeEntry all0 la, v1)) = Inr (allResults, v)"
      by simp
    moreover have "sound E opts (mergeEntry all0 la)" using t Cons.prems(2) by simp
    moreover have "v1 = map fullPath2 (analyzed2 (mergeEntry all0 la))"
      using t Cons.prems(3) by simp
    moreover have "distinct v1" using t Cons.prems(4) by blast
    ultimately show ?thesis by (rule Cons.IH)
  qed
qed


section \<open>The revision: containment on POSIX paths\<close>

lemma splitOn_no_separator: "s \<in> set (splitOn d p) \<Longrightarrow> d \<notin> set s"
  by (induction p arbitrary: s) (auto split: if_splits list.splits)

lemma segments_plain: "s \<in> set (segments p) \<Longrightarrow> s \<noteq> [] \<and> CHR ''/'' \<notin> set s"
  by (auto simp: segments_def dest: splitOn_no_separator)

lemma dropCommon_suffix: "dropCommon fs ts = (up, down) \<Longrightarrow> set down \<subseteq> set ts"
  by (induction fs ts arbitrary: up down rule: dropCommon.induct) (auto split: if_splits)

lemma dropCommon_prefix:
  "dropCommon fs ts = (up, down) \<Longrightarrow> (take (length fs) ts = fs) = (up = [])"
  by (induction fs ts arbitrary: up down rule: dropCommon.induct) (auto split: if_splits)

lemma joinSegments_plain:
  assumes "\<forall>s \<in> set segs. s \<noteq> [] \<and> CHR ''/'' \<notin> set s \<and> s \<noteq> ''..''"
  shows "(joinSegments segs = [] \<longleftrightarrow> segs = []) \<and> joinSegments segs \<noteq> ''..''
       \<and> \<not> startsWith (joinSegments segs) ''../'' \<and> \<not> startsWith (joinSegments segs) ''/''"
proof (cases segs rule: joinSegments.cases)
  case 1
  then show ?thesis by (simp add: startsWith_def)
next
  case (2 s)
  with assms have s: "s \<noteq> []" "CHR ''/'' \<notin> set s" "s \<noteq> ''..''" by simp_all
  have "\<not> startsWith s ''../''"
  proof
    assume "startsWith s ''../''"
    then obtain rest where "s = ''../'' @ rest" by (auto dest: startsWith_append)
    with s(2) show False by simp
  qed
  moreover have "\<not> startsWith s ''/''"
  proof
    assume "startsWith s ''/''"
    then obtain rest where "s = ''/'' @ rest" by (auto dest: startsWith_append)
    with s(2) show False by simp
  qed
  ultimately show ?thesis using 2 s by simp
next
  case (3 s t ss)
  with assms have s: "s \<noteq> []" "CHR ''/'' \<notin> set s" "s \<noteq> ''..''" by simp_all
  let ?j = "s @ ''/'' @ joinSegments (t # ss)"
  have j: "joinSegments segs = ?j" using 3 by simp
  have "?j \<noteq> ''..''"
  proof
    assume "?j = ''..''"
    then have "set ?j = set ''..''" by simp
    then show False by auto
  qed
  moreover have "\<not> startsWith ?j ''../''"
  proof
    assume "startsWith ?j ''../''"
    then obtain rest where t: "?j = ''../'' @ rest" by (auto dest: startsWith_append)
    show False
    proof (cases s)
      case Nil
      with s show ?thesis by simp
    next
      case (Cons c1 s1)
      show ?thesis
      proof (cases s1)
        case Nil
        with Cons t show ?thesis by simp
      next
        case (Cons c2 s2)
        show ?thesis
        proof (cases s2)
          case Nil
          with \<open>s = c1 # s1\<close> \<open>s1 = c2 # s2\<close> t s(3) show ?thesis by simp
        next
          case (Cons c3 s3)
          with \<open>s = c1 # s1\<close> \<open>s1 = c2 # s2\<close> t s(2) show ?thesis by simp
        qed
      qed
    qed
  qed
  moreover have "\<not> startsWith ?j ''/''"
    using s by (cases s) (auto simp: startsWith_def)
  ultimately show ?thesis using j s 3 by simp
qed

lemma joinSegments_up:
  "joinSegments (''..'' # rest) = ''..'' \<longleftrightarrow> rest = []"
  "rest \<noteq> [] \<Longrightarrow> startsWith (joinSegments (''..'' # rest)) ''../''"
  by (cases rest; simp add: startsWith_def)+

lemma isRealPathWithinRoot_posix:
  assumes "posixPaths E" and "''..'' \<notin> set (segments p)"
  shows "isRealPathWithinRoot E p rootPath \<longleftrightarrow> descendantOrEqual rootPath p"
proof -
  obtain up down where dc: "dropCommon (segments rootPath) (segments p) = (up, down)"
    by (cases "dropCommon (segments rootPath) (segments p)")
  have rel: "relative E rootPath p = joinSegments (replicate (length up) ''..'' @ down)"
    using assms(1) dc by (simp add: posixPaths_def posixRelative_def)
  have desc: "descendantOrEqual rootPath p \<longleftrightarrow> up = []"
    unfolding descendantOrEqual_def by (rule dropCommon_prefix [OF dc])
  have E: "sep E = ''/''" "isAbsolute E = posixIsAbsolute"
    using assms(1) by (simp_all add: posixPaths_def)
  show ?thesis
  proof (cases up)
    case Nil
    have "\<forall>s \<in> set down. s \<noteq> [] \<and> CHR ''/'' \<notin> set s \<and> s \<noteq> ''..''"
      using dropCommon_suffix [OF dc] segments_plain assms(2) by blast
    from joinSegments_plain [OF this] Nil rel desc E show ?thesis
      by (simp add: isRealPathWithinRoot_def Let_def posixIsAbsolute_def)
  next
    case (Cons u us)
    let ?rest = "replicate (length us) ''..'' @ down"
    have r: "relative E rootPath p = joinSegments (''..'' # ?rest)"
      using rel Cons by simp
    have ne: "joinSegments (''..'' # ?rest) \<noteq> []" by (cases ?rest) simp_all
    have "\<not> isRealPathWithinRoot E p rootPath"
    proof (cases "?rest = []")
      case True
      then show ?thesis
        unfolding isRealPathWithinRoot_def r Let_def by simp
    next
      case False
      from joinSegments_up(2) [OF this] ne E show ?thesis
        unfolding isRealPathWithinRoot_def r Let_def by simp
    qed
    with desc Cons show ?thesis by simp
  qed
qed

section \<open>The revision: the link analysis of \<open>main\<close>\<close>

lemma effectiveRootRealPath_main:
  "resolveRootRealPath E rootDir = Some rootReal \<Longrightarrow>
   effectiveRootRealPath E (mainOptions lims rootDir rootReal noSymlinks) rootDir = Some rootReal"
  by (simp add: effectiveRootRealPath_def isTruthy_def mainOptions_def)

lemma sandboxCheck_passed:
  assumes "sandboxCheck E opts filePath p = Inr None" and "optRootDir opts = Some rd" and "rd \<noteq> []"
  shows "\<exists>rootReal rp. effectiveRootRealPath E opts rd = Some rootReal
           \<and> realpathSync E p = Some rp \<and> isRealPathWithinRoot E rp rootReal"
  using assms by (auto simp: sandboxCheck_def split: option.splits if_splits)

lemma sandboxCheck_outside:
  assumes "optRootDir opts = Some rd" and "rd \<noteq> []"
    and "effectiveRootRealPath E opts rd = Some rootReal" and "realpathSync E p = Some rp"
    and "\<not> isRealPathWithinRoot E rp rootReal"
  shows "sandboxCheck E opts filePath p
           = Inr (Some (pushOutsideRoot [\<lparr>url = filePath, resolvedPath = p\<rparr>] emptyResult2))"
  using assms by (simp add: sandboxCheck_def)

lemma main_result:
  assumes "mainLinkedAnalysis E lims rootDir noSymlinks filePaths = Inr r"
  obtains rootReal allResults v where
    "resolveRootRealPath E rootDir = Some rootReal"
    "fold (analyzeEntry E (mainOptions lims rootDir rootReal noSymlinks)) filePaths
       (Inr (emptyResult2, [])) = Inr (allResults, v)"
    "r = crossEntryDedupe E allResults"
  using assms
  by (auto simp: mainLinkedAnalysis_def split: option.splits sum.splits)

lemma main_sound:
  assumes "mainLinkedAnalysis E lims rootDir noSymlinks filePaths = Inr r"
  obtains rootReal where
    "resolveRootRealPath E rootDir = Some rootReal"
    "sound E (mainOptions lims rootDir rootReal noSymlinks) r"
    "distinct (map fullPath2 (analyzed2 r))"
    "\<forall>p \<in> set (sk_maxDepth2 (skipped2 r)) \<union> set (sk_maxCount2 (skipped2 r)).
        resolve E p \<notin> fullPath2 ` set (analyzed2 r)"
proof -
  from assms obtain rootReal allResults v where
    root: "resolveRootRealPath E rootDir = Some rootReal"
    and f: "fold (analyzeEntry E (mainOptions lims rootDir rootReal noSymlinks)) filePaths
       (Inr (emptyResult2, [])) = Inr (allResults, v)"
    and r: "r = crossEntryDedupe E allResults"
    by (rule main_result)
  have "sound E (mainOptions lims rootDir rootReal noSymlinks) allResults
        \<and> v = map fullPath2 (analyzed2 allResults) \<and> distinct v"
    by (rule entries_invariant [OF f]) simp_all
  then have s: "sound E (mainOptions lims rootDir rootReal noSymlinks) allResults"
    and d: "distinct (map fullPath2 (analyzed2 allResults))" by auto
  show thesis
  proof (rule that [OF root])
    show "sound E (mainOptions lims rootDir rootReal noSymlinks) r"
      unfolding r using s by (rule sound_crossEntryDedupe)
    show "distinct (map fullPath2 (analyzed2 r))" unfolding r using d by simp
    show "\<forall>p \<in> set (sk_maxDepth2 (skipped2 r)) \<union> set (sk_maxCount2 (skipped2 r)).
        resolve E p \<notin> fullPath2 ` set (analyzed2 r)"
      unfolding r by auto
  qed
qed

lemma root_call_deduped:
  assumes "analyzeWithLinks2 E opts filePath 0 visited = Inr (r, visited')"
  shows "\<forall>p \<in> set (sk_maxDepth2 (skipped2 r)) \<union> set (sk_maxCount2 (skipped2 r)).
           resolve E p \<notin> fullPath2 ` set (analyzed2 r)"
  using assms
proof (cases rule: analyzeWithLinks2_cases)
  case (followed content r2)
  then show ?thesis by auto
next
  case (atMaxDepth content)
  then show ?thesis by (auto simp: Let_def)
qed auto

lemma resolvedByPath_fixed: "resolveIdempotent E \<Longrightarrow> resolvedByPath E p \<Longrightarrow> resolve E p = p"
  by (auto simp: resolveIdempotent_def resolvedByPath_def)

section \<open>The revision: what the traversal admits and records\<close>

text \<open>
  Claim C7. A reference whose raw target has a URI scheme, or starts with \<open>http://\<close> or
  \<open>https://\<close>, has the normalized target \<open>null\<close> (lines 337-350 of \<open>SKILL.md\<close>).
  \<open>extractInternalLinks\<close> returns for a document what it returns for the other references
  of the document alone, and every candidate it returns is the normalized target of such a
  reference, resolved against the directory of the document: a reference with a scheme
  becomes neither a candidate nor a blocked link.
\<close>

theorem external_targets_excluded:
  "(externalTarget rawUrl \<longrightarrow> normalizeMarkdownLinkTarget rawUrl = None)
   \<and> extractInternalLinks2 E filePath content rootDir noSymlinks
       = extractFromMatches E filePath rootDir noSymlinks
           (filter (\<lambda>g. \<not> externalTarget (snd g)) (linkMatches content))
   \<and> set (valid (extractInternalLinks2 E filePath content rootDir noSymlinks))
       \<subseteq> resolveFrom E (dirname E filePath) `
            {t. \<exists>g \<in> set (linkMatches content).
                  \<not> externalTarget (snd g) \<and> normalizeMarkdownLinkTarget (snd g) = Some t}"
proof (intro conjI impI)
  assume "externalTarget rawUrl"
  then show "normalizeMarkdownLinkTarget rawUrl = None" by (rule normalize_external)
next
  show eq: "extractInternalLinks2 E filePath content rootDir noSymlinks
       = extractFromMatches E filePath rootDir noSymlinks
           (filter (\<lambda>g. \<not> externalTarget (snd g)) (linkMatches content))"
    unfolding extractInternalLinks2_def extractFromMatches_def
    by (subst fold_pushLink2_filter_external) (rule refl)
  let ?acc = "fold (pushLink2 E filePath rootDir noSymlinks) (linkMatches content)
                \<lparr>valid = [], outsideRoot = [], symlinks = []\<rparr>"
  have "set (valid ?acc) \<subseteq> set (valid \<lparr>valid = [], outsideRoot = [], symlinks = []\<rparr>) \<union>
           resolveFrom E (dirname E filePath) `
             {t. \<exists>g \<in> set (linkMatches content). normalizeMarkdownLinkTarget (snd g) = Some t}"
    using fold_pushLink2_origin [OF refl, THEN conjunct1] .
  moreover have "{t. \<exists>g \<in> set (linkMatches content). normalizeMarkdownLinkTarget (snd g) = Some t}
      \<subseteq> {t. \<exists>g \<in> set (linkMatches content).
                  \<not> externalTarget (snd g) \<and> normalizeMarkdownLinkTarget (snd g) = Some t}"
    using normalize_external by fastforce
  moreover have "set (valid (extractInternalLinks2 E filePath content rootDir noSymlinks))
      = set (valid ?acc)"
    by (simp add: extractInternalLinks2_def extractFromMatches_def Let_def)
  ultimately show "set (valid (extractInternalLinks2 E filePath content rootDir noSymlinks))
       \<subseteq> resolveFrom E (dirname E filePath) `
            {t. \<exists>g \<in> set (linkMatches content).
                  \<not> externalTarget (snd g) \<and> normalizeMarkdownLinkTarget (snd g) = Some t}"
    by (simp only: linkResult.simps list.set Un_empty_left) blast
qed



text \<open>
  Claim C8. In the result of the link analysis of \<open>main\<close>, no path of
  \<open>skipped.maxDepth\<close> or \<open>skipped.maxCount\<close> resolves to an analyzed file; when
  \<open>path.resolve\<close> leaves the paths it has returned as they are, the two lists and the
  analyzed paths are disjoint. The same holds of the result of a call of
  \<open>analyzeWithLinks\<close> at depth 0. The two passes that run after the traversal, lines
  592-600 and 991-997 of \<open>SKILL.md\<close>, keep the analyzed files and remove from the two
  lists the paths that resolve to an analyzed file, and no other path.
\<close>

theorem analyzed_wins:
  "(mainLinkedAnalysis E lims rootDir noSymlinks filePaths = Inr r \<longrightarrow>
      (\<forall>p \<in> set (sk_maxDepth2 (skipped2 r)) \<union> set (sk_maxCount2 (skipped2 r)).
          resolve E p \<notin> fullPath2 ` set (analyzed2 r))
      \<and> (resolveIdempotent E \<longrightarrow>
           (set (sk_maxDepth2 (skipped2 r)) \<union> set (sk_maxCount2 (skipped2 r)))
             \<inter> fullPath2 ` set (analyzed2 r) = {}))
   \<and> (analyzeWithLinks2 E opts filePath 0 visited = Inr (r', visited') \<longrightarrow>
        (\<forall>p \<in> set (sk_maxDepth2 (skipped2 r')) \<union> set (sk_maxCount2 (skipped2 r')).
            resolve E p \<notin> fullPath2 ` set (analyzed2 r')))
   \<and> sk_maxDepth2 (skipped2 (dedupeSkipped E r0))
       = filter (\<lambda>p. resolve E p \<notin> fullPath2 ` set (analyzed2 r0)) (sk_maxDepth2 (skipped2 r0))
   \<and> sk_maxCount2 (skipped2 (dedupeSkipped E r0))
       = filter (\<lambda>p. resolve E p \<notin> fullPath2 ` set (analyzed2 r0)) (sk_maxCount2 (skipped2 r0))
   \<and> analyzed2 (dedupeSkipped E r0) = analyzed2 r0
   \<and> sk_maxDepth2 (skipped2 (crossEntryDedupe E r0))
       = filter (\<lambda>p. resolve E p \<notin> fullPath2 ` set (analyzed2 r0))
           (uniqStrings (sk_maxDepth2 (skipped2 r0)))
   \<and> sk_maxCount2 (skipped2 (crossEntryDedupe E r0))
       = filter (\<lambda>p. resolve E p \<notin> fullPath2 ` set (analyzed2 r0))
           (uniqStrings (sk_maxCount2 (skipped2 r0)))
   \<and> analyzed2 (crossEntryDedupe E r0) = analyzed2 r0"
proof (intro conjI impI)
  assume a: "mainLinkedAnalysis E lims rootDir noSymlinks filePaths = Inr r"
  then obtain rootReal where
    s: "sound E (mainOptions lims rootDir rootReal noSymlinks) r"
    and f: "\<forall>p \<in> set (sk_maxDepth2 (skipped2 r)) \<union> set (sk_maxCount2 (skipped2 r)).
        resolve E p \<notin> fullPath2 ` set (analyzed2 r)"
    by (rule main_sound)
  show "\<forall>p \<in> set (sk_maxDepth2 (skipped2 r)) \<union> set (sk_maxCount2 (skipped2 r)).
        resolve E p \<notin> fullPath2 ` set (analyzed2 r)" by (rule f)
  assume i: "resolveIdempotent E"
  have "\<forall>p \<in> set (sk_maxDepth2 (skipped2 r)) \<union> set (sk_maxCount2 (skipped2 r)). resolve E p = p"
    using s resolvedByPath_fixed [OF i] by (simp add: sound_def)
  with f show "(set (sk_maxDepth2 (skipped2 r)) \<union> set (sk_maxCount2 (skipped2 r)))
             \<inter> fullPath2 ` set (analyzed2 r) = {}"
    by fastforce
next
  assume "analyzeWithLinks2 E opts filePath 0 visited = Inr (r', visited')"
  then show "\<forall>p \<in> set (sk_maxDepth2 (skipped2 r')) \<union> set (sk_maxCount2 (skipped2 r')).
            resolve E p \<notin> fullPath2 ` set (analyzed2 r')"
    by (rule root_call_deduped)
qed simp_all


section \<open>The revision: example runs\<close>

lemma evaluateMetrics2_perfect:
  assumes "totalLines m \<le> 200" "maxDepth m \<le> 4" "sectionCount m \<le> 20"
    "avgSectionLength m = 0 \<or> 15 \<le> avgSectionLength m" "anchorLinks m = 0"
  shows "evaluateMetrics2 m
           = \<lparr>lineCount = 10, structureScore = 10, progressiveDisclosure = 10, overall = 10\<rparr>"
proof -
  have "mathRound (weightedSum 10 10 10) = 10" by (simp add: double_simps Let_def)
  moreover have "lineCountOf2 m = 10" "progressiveDisclosureOf2 m = 10"
    using assms by (simp_all add: lineCountOf2_def progressiveDisclosureOf2_def tierScore_def)
  moreover have "structureOf2 m = 10" using assms by (auto simp: structureOf2_def Let_def)
  ultimately show ?thesis by (simp add: evaluateMetrics2_def Let_def)
qed

lemmas target2_simps = normalizeMarkdownLinkTarget_def stripAngleBrackets_def hasScheme_def
  isAsciiLetter_def isSchemeChar_def trim_def isWhitespace_def startsWith_def matchLinkAt_def
  Let_def

lemmas text2_simps = analyzeText2_def analyzeLine2_def countLink2_def headerMatch_def nonEmpty_def
  isLineTerminator_def target2_simps

lemma example_scores2:
  "evaluateMetrics2 (analyzeText2 ''[p](../etc/passwd) [l](link.md) [b](b.md)'') = perfect"
  "evaluateMetrics2 (analyzeText2 ''[b](b.md) [c](c.md)'') = perfect"
  "evaluateMetrics2 (analyzeText2 ''[c](c.md)'') = perfect"
  "evaluateMetrics2 (analyzeText2 ''x'') = perfect"
  "evaluateMetrics2 (analyzeText2 ''[b](b.md)'') = perfect"
  "evaluateMetrics2 (analyzeText2 ''[a](a.md)'') = perfect"
  unfolding perfect_def by (rule evaluateMetrics2_perfect; simp add: text2_simps)+

lemmas link2_simps = linksOf_def extractInternalLinks2_def extractFromMatches_def pushLink2_def
  blockedByPath_def uniqStrings_def setAdd_def target2_simps posixResolve_def segments_def
  normalizeSegments_def posixRelative_def posixIsAbsolute_def posixDirname_def posixBasename_def

lemmas walk2_simps = mainLinkedAnalysis_def checkEntry_def analyzeEntry_def mainOptions_def
  analyzeWithLinks2_visited analyzeWithLinks2_full analyzeWithLinks2_notFound
  analyzeWithLinks2_threw analyzeWithLinks2_blocked analyzeWithLinks2_unreadable
  analyzeWithLinks2_admitted passes_def sandboxCheck_def effectiveRootRealPath_def
  resolveRootRealPath_def isTruthy_def isRealPathWithinRoot_def setHas_def posixEnv2_def
  finish_def firstResult2_def recordAnalyzed2_def fileResultOf2_def emptyResult2_def
  mergeLinked2_def mergeEntry_def averageOf2_def pushMaxDepth2_def pushMaxCount2_def
  pushNotFound2_def pushOutsideRoot_def pushSymlinks_def pushBlocked_def recordMaxDepth2_def
  dedupeSkipped_def crossEntryDedupe_def followLink2_def limits_def options2_def
  example_scores2 perfect_def link2_simps

lemma walk2_sandbox:
  "map_sum id (\<lambda>r. (map fullPath2 (analyzed2 r), sk_outsideRoot (skipped2 r)))
     (mainLinkedAnalysis sandboxEnv (limits 2 10) ''/r'' False [''/r/a.md''])
   = Inr ([''/r/a.md'', ''/r/b.md''],
          [\<lparr>url = ''../etc/passwd'', resolvedPath = ''/etc/passwd''\<rparr>,
           \<lparr>url = ''/r/link.md'', resolvedPath = ''/r/link.md''\<rparr>])"
  by (simp add: walk2_simps sandboxEnv_def sandboxFiles_def split del: if_split)

lemma walk2_cycle:
  "map_sum id (\<lambda>r. (map fullPath2 (analyzed2 r), notFound2 r, skipped2 r))
     (mainLinkedAnalysis cycleEnv (limits 2 2) ''/r'' False [''/r/a.md''])
   = Inr ([''/r/a.md'', ''/r/b.md''], [],
          \<lparr>sk_maxDepth2 = [], sk_maxCount2 = [], sk_outsideRoot = [], sk_symlinks = []\<rparr>)"
  by (simp add: walk2_simps cycleEnv_def cycleFiles_def split del: if_split)

lemma walk2_diamond:
  "map_sum id (\<lambda>r. (map fullPath2 (analyzed2 r), sk_maxDepth2 (skipped2 r), sk_maxCount2 (skipped2 r)))
     (mainLinkedAnalysis diamondEnv (limits 1 10) ''/r'' False [''/r/a.md''])
   = Inr ([''/r/a.md'', ''/r/b.md'', ''/r/c.md''], [], [])"
  by (simp add: walk2_simps diamondEnv_def diamondFiles_def split del: if_split)

lemma walk2_chain:
  "map_sum id (\<lambda>r. (map fullPath2 (analyzed2 r), sk_maxDepth2 (skipped2 r), sk_maxCount2 (skipped2 r)))
     (mainLinkedAnalysis chainEnv (limits 1 10) ''/r'' False [''/r/x.md'', ''/r/c.md''])
   = Inr ([''/r/x.md'', ''/r/b.md'', ''/r/c.md''], [], [])"
  by (simp add: walk2_simps chainEnv_def chainFiles_def split del: if_split)

lemma walk2_chain_first:
  "map_sum id (\<lambda>(r, v). (map fullPath2 (analyzed2 r), sk_maxDepth2 (skipped2 r), v))
     (analyzeWithLinks2 chainEnv (options2 1 10 ''/r'') ''/r/x.md'' 0 [])
   = Inr ([''/r/x.md'', ''/r/b.md''], [''/r/c.md''], [''/r/x.md'', ''/r/b.md''])"
  by (simp add: walk2_simps chainEnv_def chainFiles_def split del: if_split)


section \<open>The revision: \<open>path.resolve\<close> on POSIX paths\<close>

lemma splitOn_plain: "d \<notin> set s \<Longrightarrow> splitOn d s = [s]"
  by (induction s) auto

lemma splitOn_append: "d \<notin> set s \<Longrightarrow> splitOn d (s @ d # rest) = s # splitOn d rest"
  by (induction s) auto

lemma splitOn_joinSegments:
  "segs \<noteq> [] \<Longrightarrow> \<forall>s \<in> set segs. CHR ''/'' \<notin> set s \<Longrightarrow>
   splitOn (CHR ''/'') (joinSegments segs) = segs"
proof (induction segs rule: joinSegments.induct)
  case 1
  then show ?case by simp
next
  case (2 s)
  then show ?case by (simp add: splitOn_plain)
next
  case (3 s t ss)
  then show ?case by (simp add: splitOn_append)
qed

lemma segments_joinSegments:
  assumes "\<forall>s \<in> set segs. s \<noteq> [] \<and> CHR ''/'' \<notin> set s"
  shows "segments (''/'' @ joinSegments segs) = segs"
proof (cases "segs = []")
  case True
  then show ?thesis by (simp add: segments_def)
next
  case False
  with assms have "splitOn (CHR ''/'') (joinSegments segs) = segs"
    by (intro splitOn_joinSegments) auto
  with assms show ?thesis by (simp add: segments_def filter_id_conv)
qed

lemma fold_normalize_set:
  "set (fold (\<lambda>s acc. if s = ''.'' then acc else if s = ''..'' then butlast acc else acc @ [s])
          xs acc)
     \<subseteq> set acc \<union> (set xs - {''.'', ''..''})"
proof (induction xs arbitrary: acc)
  case Nil
  then show ?case by simp
next
  case (Cons x xs)
  have "set (butlast acc) \<subseteq> set acc" by (auto dest: in_set_butlastD)
  with Cons [of acc] Cons [of "butlast acc"] Cons [of "acc @ [x]"] show ?case
    by (auto split: if_splits)
qed

lemma normalizeSegments_set: "set (normalizeSegments xs) \<subseteq> set xs - {''.'', ''..''}"
  using fold_normalize_set [of xs "[]"] by (simp add: normalizeSegments_def)

lemma fold_normalize_plain:
  "''.'' \<notin> set xs \<Longrightarrow> ''..'' \<notin> set xs \<Longrightarrow>
   fold (\<lambda>s acc. if s = ''.'' then acc else if s = ''..'' then butlast acc else acc @ [s]) xs acc
     = acc @ xs"
  by (induction xs arbitrary: acc) auto

lemma posixResolve_resolved: "posixResolve d' (posixResolve dir t) = posixResolve dir t"
proof -
  define ns where
    "ns = normalizeSegments (segments (if startsWith t ''/'' then t else dir @ ''/'' @ t))"
  have r: "posixResolve dir t = ''/'' @ joinSegments ns"
    by (simp add: posixResolve_def ns_def)
  have plain: "\<forall>s \<in> set ns. s \<noteq> [] \<and> CHR ''/'' \<notin> set s"
    unfolding ns_def using normalizeSegments_set segments_plain by blast
  have dots: "''.'' \<notin> set ns" "''..'' \<notin> set ns"
    unfolding ns_def using normalizeSegments_set by blast+
  have "segments (''/'' @ joinSegments ns) = ns"
    using plain by (rule segments_joinSegments)
  moreover have "normalizeSegments ns = ns"
    using fold_normalize_plain [OF dots, of "[]"] by (simp add: normalizeSegments_def)
  moreover have "startsWith (''/'' @ joinSegments ns) ''/''" by (simp add: startsWith_def)
  ultimately have "posixResolve d' (''/'' @ joinSegments ns) = ''/'' @ joinSegments ns"
    by (simp add: posixResolve_def)
  then show ?thesis by (simp add: r)
qed

lemma resolveIdempotent_posixEnv2: "resolveIdempotent (posixEnv2 dirs files links)"
  by (simp add: resolveIdempotent_def posixEnv2_def posixResolve_resolved)

lemma posixPaths_posixEnv2: "posixPaths (posixEnv2 dirs files links)"
  by (simp add: posixPaths_def posixEnv2_def)

section \<open>The revision: the claims on the examples\<close>

lemma targets_anchorDocument2: "documentTargets anchorDocument = [(''top'', ''#top'')]"
  by (simp add: anchorDocument_def documentTargets_def lineTargets_def target2_simps)

lemma targets_longAnchorDocument: "documentTargets longAnchorDocument = [(''top'', ''#top'')]"
  unfolding longAnchorDocument_def documentTargets_blankLines
  by (simp add: documentTargets_def lineTargets_def target2_simps)

lemma lines_longAnchorDocument: "length (splitLines longAnchorDocument) = 600"
  unfolding longAnchorDocument_def splitLines_blankLines by simp

lemma lines_anchorDocument: "length (splitLines anchorDocument) = 1"
  by (simp add: anchorDocument_def)

text \<open>
  C4 on a line whose only reference is an anchor, which scores 8, and on a document of 600
  lines whose only reference is an anchor, which scores 1.
\<close>

theorem anchor_penalty_witness:
  "anchorLinks (analyzeText2 anchorDocument) = 1
   \<and> totalLinks (analyzeText2 anchorDocument) = 1
   \<and> totalLines (analyzeText2 anchorDocument) = 1
   \<and> progressiveDisclosure (evaluateMetrics2 (analyzeText2 anchorDocument)) = 8
   \<and> anchorLinks (analyzeText2 longAnchorDocument) = 1
   \<and> totalLinks (analyzeText2 longAnchorDocument) = 1
   \<and> totalLines (analyzeText2 longAnchorDocument) = 600
   \<and> progressiveDisclosure (evaluateMetrics2 (analyzeText2 longAnchorDocument)) = 1"
  using anchor_penalty [of "analyzeText2 anchorDocument" anchorDocument]
    anchor_penalty [of "analyzeText2 longAnchorDocument" longAnchorDocument]
  by (simp add: links_analyzeText2 anchorCount_def targets_anchorDocument2
        targets_longAnchorDocument lines_longAnchorDocument isAnchorTarget_def
        startsWith_def specTierScore_def normalizeMarkdownLinkTarget_def
        stripAngleBrackets_def trim_def isWhitespace_def lines_anchorDocument)


text \<open>
  C7 on a document with a \<open>mailto:\<close> link, an \<open>https:\<close> link and a link to
  \<open>b.md\<close>: the only candidate is \<open>/r/b.md\<close>.
\<close>

theorem external_targets_excluded_witness:
  "externalTarget ''mailto:a@b.c'' \<and> normalizeMarkdownLinkTarget ''mailto:a@b.c'' = None
   \<and> externalTarget ''https://example.com''
   \<and> normalizeMarkdownLinkTarget ''https://example.com'' = None
   \<and> extractInternalLinks2 sandboxEnv ''/r/a.md''
         ''[m](mailto:a@b.c) [w](https://example.com) [b](b.md)'' (Some ''/r'') False
       = extractFromMatches sandboxEnv ''/r/a.md'' (Some ''/r'') False [(''b'', ''b.md'')]
   \<and> valid (extractInternalLinks2 sandboxEnv ''/r/a.md''
         ''[m](mailto:a@b.c) [w](https://example.com) [b](b.md)'' (Some ''/r'') False)
       = [''/r/b.md'']"
proof -
  have e: "externalTarget ''mailto:a@b.c''" "externalTarget ''https://example.com''"
    by (simp_all add: externalTarget_def hasScheme_def isAsciiLetter_def isSchemeChar_def
          startsWith_def)
  have m: "filter (\<lambda>g. \<not> externalTarget (snd g))
             (linkMatches ''[m](mailto:a@b.c) [w](https://example.com) [b](b.md)'')
           = [(''b'', ''b.md'')]"
    by (simp add: externalTarget_def hasScheme_def isAsciiLetter_def isSchemeChar_def
          startsWith_def matchLinkAt_def Let_def)
  note t1 = external_targets_excluded [of "''mailto:a@b.c''" sandboxEnv "''/r/a.md''"
      "''[m](mailto:a@b.c) [w](https://example.com) [b](b.md)''" "Some ''/r''" False]
  note t2 = external_targets_excluded [of "''https://example.com''" sandboxEnv "''/r/a.md''"
      "''[m](mailto:a@b.c) [w](https://example.com) [b](b.md)''" "Some ''/r''" False]
  from t1 e(1) have n1: "normalizeMarkdownLinkTarget ''mailto:a@b.c'' = None" by blast
  from t2 e(2) have n2: "normalizeMarkdownLinkTarget ''https://example.com'' = None" by blast
  from t1 have x: "extractInternalLinks2 sandboxEnv ''/r/a.md''
         ''[m](mailto:a@b.c) [w](https://example.com) [b](b.md)'' (Some ''/r'') False
       = extractFromMatches sandboxEnv ''/r/a.md'' (Some ''/r'') False [(''b'', ''b.md'')]"
    unfolding m by blast
  have v: "valid (extractFromMatches sandboxEnv ''/r/a.md'' (Some ''/r'') False [(''b'', ''b.md'')])
       = [''/r/b.md'']"
    by (simp add: link2_simps sandboxEnv_def posixEnv2_def)
  from e n1 n2 x v show ?thesis by simp
qed


lemma walk2_sandbox_call:
  "map_sum id (\<lambda>(r, v). map fullPath2 (analyzed2 r))
     (analyzeWithLinks2 sandboxEnv (options2 2 10 ''/r'') ''/r/a.md'' 0 [])
   = Inr [''/r/a.md'', ''/r/b.md'']"
  by (simp add: walk2_simps sandboxEnv_def sandboxFiles_def split del: if_split)

lemma sandboxEnv_facts:
  "resolveRootRealPath sandboxEnv ''/r'' = Some ''/r''"
  "effectiveRootRealPath sandboxEnv (options2 2 10 ''/r'') ''/r'' = Some ''/r''"
  "realpathSync sandboxEnv ''/r/a.md'' = Some ''/r/a.md''"
  "realpathSync sandboxEnv ''/r/b.md'' = Some ''/r/b.md''"
  "realpathSync sandboxEnv ''/r/link.md'' = Some ''/etc/passwd''"
  "resolve sandboxEnv ''/r/link.md'' = ''/r/link.md''"
  "passes sandboxEnv (options2 2 10 ''/r'') ''/r/link.md'' [''/r/a.md'']"
  "\<not> isRealPathWithinRoot sandboxEnv ''/etc/passwd'' ''/r''"
  "optRootDir (options2 2 10 ''/r'') = Some ''/r''"
  by (simp_all add: resolveRootRealPath_def effectiveRootRealPath_def isTruthy_def options2_def
        sandboxEnv_def posixEnv2_def sandboxFiles_def posixResolve_def segments_def
        normalizeSegments_def startsWith_def passes_def setHas_def isRealPathWithinRoot_def
        posixRelative_def posixIsAbsolute_def)

lemma segments_examples:
  "''..'' \<notin> set (segments ''/r/a.md'')" "''..'' \<notin> set (segments ''/r/b.md'')"
  by (simp_all add: segments_def)


lemma cycleEnv_facts:
  "resolve cycleEnv ''/r/a.md'' = ''/r/a.md''"
  "optMaxCount (options2 2 10 ''/r'') = 10"
  by (simp_all add: cycleEnv_def posixEnv2_def posixResolve_def segments_def
        normalizeSegments_def startsWith_def options2_def)


lemma chainEnv_facts:
  "resolve chainEnv ''/r/c.md'' = ''/r/c.md''"
  "resolve chainEnv ''/r/d.md'' = ''/r/d.md''"
  by (simp_all add: chainEnv_def posixEnv2_def posixResolve_def segments_def
        normalizeSegments_def startsWith_def)

text \<open>
  C8 on the chain of \<open>x.md\<close>, \<open>b.md\<close> and \<open>c.md\<close> with the maximal depth 1: the
  call for \<open>x.md\<close> records \<open>c.md\<close> under \<open>skipped.maxDepth\<close>, and with
  \<open>c.md\<close> as a second entry point, which is analyzed, the result holds no such record.
\<close>

theorem analyzed_wins_witness:
  "(\<exists>r. mainLinkedAnalysis chainEnv (limits 1 10) ''/r'' False [''/r/x.md'', ''/r/c.md''] = Inr r
        \<and> map fullPath2 (analyzed2 r) = [''/r/x.md'', ''/r/b.md'', ''/r/c.md'']
        \<and> sk_maxDepth2 (skipped2 r) = [] \<and> sk_maxCount2 (skipped2 r) = []
        \<and> (set (sk_maxDepth2 (skipped2 r)) \<union> set (sk_maxCount2 (skipped2 r)))
            \<inter> fullPath2 ` set (analyzed2 r) = {})
   \<and> resolveIdempotent chainEnv
   \<and> (\<exists>r' visited'.
         analyzeWithLinks2 chainEnv (options2 1 10 ''/r'') ''/r/x.md'' 0 [] = Inr (r', visited')
         \<and> map fullPath2 (analyzed2 r') = [''/r/x.md'', ''/r/b.md'']
         \<and> sk_maxDepth2 (skipped2 r') = [''/r/c.md'']
         \<and> list_all (\<lambda>p. resolve chainEnv p \<notin> fullPath2 ` set (analyzed2 r'))
             (sk_maxDepth2 (skipped2 r') @ sk_maxCount2 (skipped2 r')))
   \<and> sk_maxDepth2 (skipped2 (dedupeSkipped chainEnv
        (pushMaxDepth2 ''/r/d.md'' (pushMaxDepth2 ''/r/c.md''
           (firstResult2 chainEnv (options2 1 10 ''/r'') ''/r/c.md'' 1 ''x'')))))
       = [''/r/d.md'']"
proof -
  let ?E = chainEnv
  let ?opts = "options2 1 10 ''/r''"
  let ?r0 = "pushMaxDepth2 ''/r/d.md'' (pushMaxDepth2 ''/r/c.md''
               (firstResult2 ?E ?opts ''/r/c.md'' 1 ''x''))"
  obtain r where
    r: "mainLinkedAnalysis ?E (limits 1 10) ''/r'' False [''/r/x.md'', ''/r/c.md''] = Inr r"
    and v: "map fullPath2 (analyzed2 r) = [''/r/x.md'', ''/r/b.md'', ''/r/c.md'']"
    and s: "sk_maxDepth2 (skipped2 r) = []" "sk_maxCount2 (skipped2 r) = []"
    using walk2_chain by (auto simp: map_sum_Inr_iff)
  obtain r' visited' where
    c: "analyzeWithLinks2 ?E ?opts ''/r/x.md'' 0 [] = Inr (r', visited')"
    and v': "map fullPath2 (analyzed2 r') = [''/r/x.md'', ''/r/b.md'']"
    and s': "sk_maxDepth2 (skipped2 r') = [''/r/c.md'']"
    using walk2_chain_first by (auto simp: map_sum_Inr_iff)
  have i: "resolveIdempotent ?E" unfolding chainEnv_def by (rule resolveIdempotent_posixEnv2)
  note t = analyzed_wins [where E = ?E and lims = "limits 1 10" and rootDir = "''/r''"
      and noSymlinks = False and filePaths = "[''/r/x.md'', ''/r/c.md'']" and r = r
      and opts = ?opts and filePath = "''/r/x.md''" and visited = "[]" and r' = r'
      and visited' = visited' and ?r0.0 = ?r0]
  from t r i have disj: "(set (sk_maxDepth2 (skipped2 r)) \<union> set (sk_maxCount2 (skipped2 r)))
            \<inter> fullPath2 ` set (analyzed2 r) = {}"
    by blast
  from t c have "\<forall>p \<in> set (sk_maxDepth2 (skipped2 r')) \<union> set (sk_maxCount2 (skipped2 r')).
            resolve ?E p \<notin> fullPath2 ` set (analyzed2 r')"
    by blast
  then have kept: "list_all (\<lambda>p. resolve ?E p \<notin> fullPath2 ` set (analyzed2 r'))
             (sk_maxDepth2 (skipped2 r') @ sk_maxCount2 (skipped2 r'))"
    by (simp add: list_all_iff)
  from t have "sk_maxDepth2 (skipped2 (dedupeSkipped ?E ?r0))
       = filter (\<lambda>p. resolve ?E p \<notin> fullPath2 ` set (analyzed2 ?r0)) (sk_maxDepth2 (skipped2 ?r0))"
    by blast
  then have post: "sk_maxDepth2 (skipped2 (dedupeSkipped ?E ?r0)) = [''/r/d.md'']"
    by (simp add: chainEnv_facts)
  from r v s disj have A:
    "\<exists>r. mainLinkedAnalysis ?E (limits 1 10) ''/r'' False [''/r/x.md'', ''/r/c.md''] = Inr r
        \<and> map fullPath2 (analyzed2 r) = [''/r/x.md'', ''/r/b.md'', ''/r/c.md'']
        \<and> sk_maxDepth2 (skipped2 r) = [] \<and> sk_maxCount2 (skipped2 r) = []
        \<and> (set (sk_maxDepth2 (skipped2 r)) \<union> set (sk_maxCount2 (skipped2 r)))
            \<inter> fullPath2 ` set (analyzed2 r) = {}"
    by (intro exI [of _ r] conjI)
  from c v' s' kept have B:
    "\<exists>r' visited'.
         analyzeWithLinks2 ?E ?opts ''/r/x.md'' 0 [] = Inr (r', visited')
         \<and> map fullPath2 (analyzed2 r') = [''/r/x.md'', ''/r/b.md'']
         \<and> sk_maxDepth2 (skipped2 r') = [''/r/c.md'']
         \<and> list_all (\<lambda>p. resolve ?E p \<notin> fullPath2 ` set (analyzed2 r'))
             (sk_maxDepth2 (skipped2 r') @ sk_maxCount2 (skipped2 r'))"
    by (intro exI [of _ r'] exI [of _ visited'] conjI)
  from A i B post show ?thesis by (intro conjI)
qed

end
